theory Spec2Isabelle
  imports Main
begin

section \<open>Data model of tetris.cpp\<close>

text \<open>
  The program is one translation unit, \<^verbatim>\<open>tetris.cpp\<close>. The embedding covers the game
  logic of \<^verbatim>\<open>Piece\<close> and \<^verbatim>\<open>Board\<close>; the SDL calls (\<^verbatim>\<open>drawTile\<close>, \<^verbatim>\<open>Piece::draw\<close>,
  \<^verbatim>\<open>Board::draw\<close>, \<^verbatim>\<open>SDL_RenderPresent\<close>) only paint and never touch the state modelled
  here, so they are left out.

  C++ \<^verbatim>\<open>int\<close> is modelled as \<open>int\<close>. Anchors stay within a few cells of the 20 by 12
  board. The counter \<open>rowsCompleted\<close> grows by one per completed row; the model does not
  represent the signed overflow (undefined in C++) of its increment at 2147483647, and
  the theorem about the value of the counter carries that bound.

  A \<^verbatim>\<open>Piece*\<close> is the address of a slot of the vector \<^verbatim>\<open>Board::pieces\<close>; it is modelled as
  the index of that slot, \<^verbatim>\<open>nullptr\<close> as \<open>None\<close>. Every \<^verbatim>\<open>Piece\<close> of the program lives in
  that vector, so a member function of \<^verbatim>\<open>Piece\<close> takes the index \<open>this\<close> and the board.

  A function returns \<open>None\<close> where the C++ has no defined result: a member call through a
  pointer to no live element, an array index out of range, a loop that never exits.
\<close>

datatype Direction = UP | DOWN | LEFT | RIGHT

record Color =
  red :: int
  green :: int
  blue :: int
  alpha :: int

definition BLACK :: Color where
  "BLACK = \<lparr>red = 0, green = 0, blue = 0, alpha = 255\<rparr>"

definition RED :: Color where
  "RED = \<lparr>red = 255, green = 0, blue = 0, alpha = 255\<rparr>"

definition GREEN :: Color where
  "GREEN = \<lparr>red = 0, green = 255, blue = 0, alpha = 255\<rparr>"

definition BLUE :: Color where
  "BLUE = \<lparr>red = 0, green = 0, blue = 255, alpha = 255\<rparr>"

definition DEFAULT_COLORS :: "Color list" where
  "DEFAULT_COLORS = [RED, GREEN, BLUE]"

definition NUM_DEFAULT_PIECES :: nat where
  "NUM_DEFAULT_PIECES = 5"

definition MAX_HEIGHT :: int where
  "MAX_HEIGHT = 4"

definition MAX_WIDTH :: int where
  "MAX_WIDTH = 4"

definition NUM_ROWS :: int where
  "NUM_ROWS = 20"

definition NUM_COLS :: int where
  "NUM_COLS = 12"

text \<open>
  \<^verbatim>\<open>std::array<T, 4>\<close>: exactly four elements. \<open>at4\<close> and \<open>upd4\<close> are \<^verbatim>\<open>operator[]\<close> for an
  index in 0..3; the model checks the range itself wherever the source does not fix it
  by a loop bound (see \<open>removeTile\<close>).
\<close>

datatype 'a array4 = Array4 'a 'a 'a 'a

fun at4 :: "'a array4 \<Rightarrow> int \<Rightarrow> 'a" where
  "at4 (Array4 a b c d) i = (if i = 0 then a else if i = 1 then b else if i = 2 then c else d)"

fun upd4 :: "'a array4 \<Rightarrow> int \<Rightarrow> 'a \<Rightarrow> 'a array4" where
  "upd4 (Array4 a b c d) i v =
     (if i = 0 then Array4 v b c d
      else if i = 1 then Array4 a v c d
      else if i = 2 then Array4 a b v d
      else Array4 a b c v)"

type_synonym TileGridType = "bool array4 array4"

definition tile :: "TileGridType \<Rightarrow> int \<Rightarrow> int \<Rightarrow> bool" where
  "tile tg subRow subCol = at4 (at4 tg subRow) subCol"

definition set_tile :: "TileGridType \<Rightarrow> int \<Rightarrow> int \<Rightarrow> bool \<Rightarrow> TileGridType" where
  "set_tile tg subRow subCol v = upd4 tg subRow (upd4 (at4 tg subRow) subCol v)"

definition no_tiles :: TileGridType where
  "no_tiles =
     Array4 (Array4 False False False False) (Array4 False False False False)
            (Array4 False False False False) (Array4 False False False False)"

definition DEFAULT_PIECES :: "TileGridType list" where
  "DEFAULT_PIECES =
    [Array4 (Array4 True True True True) (Array4 False False False False)
            (Array4 False False False False) (Array4 False False False False),
     Array4 (Array4 False True False False) (Array4 True True True False)
            (Array4 False False False False) (Array4 False False False False),
     Array4 (Array4 True True False False) (Array4 True False False False)
            (Array4 True False False False) (Array4 False False False False),
     Array4 (Array4 True True False False) (Array4 False True False False)
            (Array4 False True False False) (Array4 False False False False),
     Array4 (Array4 True True False False) (Array4 True True False False)
            (Array4 False False False False) (Array4 False False False False)]"

record Piece =
  tileGrid :: TileGridType
  color :: Color
  row :: int
  col :: int

text \<open>
  \<open>pieceGrid\<close> is \<^verbatim>\<open>std::array<std::array<Piece*, NUM_COLS>, NUM_ROWS>\<close>: a list of
  \<open>NUM_ROWS\<close> rows of \<open>NUM_COLS\<close> cells (\<open>grid_ok\<close>). \<open>colorIndex\<close> is the function-local
  static of \<^verbatim>\<open>Piece::Piece()\<close>; only the board constructs pieces, so it travels with the
  board.
\<close>

type_synonym grid = "nat option list list"

record Board =
  pieceGrid :: grid
  pieces :: "Piece list"
  activePiece :: "nat option"
  rowsCompleted :: int
  colorIndex :: nat

definition grid_ok :: "grid \<Rightarrow> bool" where
  "grid_ok g \<longleftrightarrow> length g = nat NUM_ROWS \<and> list_all (\<lambda>r. length r = nat NUM_COLS) g"

definition in_board :: "int \<Rightarrow> int \<Rightarrow> bool" where
  "in_board r c \<longleftrightarrow> \<not> (r < 0 \<or> r \<ge> NUM_ROWS \<or> c < 0 \<or> c \<ge> NUM_COLS)"

text \<open>\<^verbatim>\<open>pieceGrid[r][c]\<close>, read and written; only used where \<open>in_board r c\<close> has been checked.\<close>

definition grid_at :: "grid \<Rightarrow> int \<Rightarrow> int \<Rightarrow> nat option" where
  "grid_at g r c = g ! nat r ! nat c"

definition grid_set :: "grid \<Rightarrow> int \<Rightarrow> int \<Rightarrow> nat option \<Rightarrow> grid" where
  "grid_set g r c v = g[nat r := (g ! nat r)[nat c := v]]"

definition empty_grid :: grid where
  "empty_grid = replicate (nat NUM_ROWS) (replicate (nat NUM_COLS) None)"

text \<open>
  The nested loops \<^verbatim>\<open>for subRow in 0..MAX_HEIGHT-1, for subCol in 0..MAX_WIDTH-1\<close> visit
  the sub-cells in this order.
\<close>

definition subCells :: "(int \<times> int) list" where
  "subCells = List.product [0..MAX_HEIGHT - 1] [0..MAX_WIDTH - 1]"

section \<open>Piece\<close>

text \<open>First loop nest of \<^verbatim>\<open>Piece::moveTo\<close>: \<open>False\<close> is its \<^verbatim>\<open>return false\<close>.\<close>

fun validate :: "nat \<Rightarrow> int \<Rightarrow> int \<Rightarrow> TileGridType \<Rightarrow> grid \<Rightarrow> (int \<times> int) list \<Rightarrow> bool" where
  "validate this newRow newCol newTileGrid g [] = True"
| "validate this newRow newCol newTileGrid g ((subRow, subCol) # rest) =
     (if \<not> tile newTileGrid subRow subCol then validate this newRow newCol newTileGrid g rest
      else
        let absoluteRow = newRow + subRow; absoluteCol = newCol + subCol in
        if absoluteRow < 0 \<or> absoluteRow \<ge> NUM_ROWS \<or> absoluteCol < 0 \<or> absoluteCol \<ge> NUM_COLS
        then False
        else if grid_at g absoluteRow absoluteCol \<noteq> None
                \<and> grid_at g absoluteRow absoluteCol \<noteq> Some this
        then False
        else validate this newRow newCol newTileGrid g rest)"

text \<open>
  Second and third loop nest of \<^verbatim>\<open>Piece::moveTo\<close>: \<^verbatim>\<open>board.pieceGrid[r][c] = v\<close> for every
  set sub-cell of \<open>tg\<close> anchored at \<open>(r0, c0)\<close>, with \<open>v\<close> the null pointer in the second
  and \<^verbatim>\<open>this\<close> in the third. The source writes unchecked; a write outside the array is
  \<open>None\<close>.
\<close>

fun write_cells :: "nat option \<Rightarrow> int \<Rightarrow> int \<Rightarrow> TileGridType \<Rightarrow> (int \<times> int) list \<Rightarrow> grid \<Rightarrow> grid option" where
  "write_cells v r0 c0 tg [] g = Some g"
| "write_cells v r0 c0 tg ((subRow, subCol) # rest) g =
     (if tile tg subRow subCol then
        (let r = r0 + subRow; c = c0 + subCol in
         if in_board r c then write_cells v r0 c0 tg rest (grid_set g r c v) else None)
      else write_cells v r0 c0 tg rest g)"

definition moveTo :: "nat \<Rightarrow> int \<Rightarrow> int \<Rightarrow> TileGridType \<Rightarrow> Board \<Rightarrow> (bool \<times> Board) option" where
  "moveTo this newRow newCol newTileGrid board =
     (if this \<ge> length (pieces board) then None
      else if \<not> validate this newRow newCol newTileGrid (pieceGrid board) subCells
      then Some (False, board)
      else
        let p = pieces board ! this in
        case write_cells None (row p) (col p) (tileGrid p) subCells (pieceGrid board) of
          None \<Rightarrow> None
        | Some g1 \<Rightarrow>
           (case write_cells (Some this) newRow newCol newTileGrid subCells g1 of
              None \<Rightarrow> None
            | Some g2 \<Rightarrow>
                Some (True, board\<lparr>pieceGrid := g2,
                                  pieces := (pieces board)[this := p\<lparr>row := newRow, col := newCol\<rparr>]\<rparr>)))"

text \<open>
  \<^verbatim>\<open>Piece::Piece()\<close>: \<open>rd\<close> is the value drawn from \<^verbatim>\<open>std::random_device\<close>, \<open>ci\<close> the static
  \<^verbatim>\<open>colorIndex\<close>; the result is the piece and the next \<^verbatim>\<open>colorIndex\<close>. The anchor is the
  default member initialiser \<^verbatim>\<open>row = 0, col = 0\<close>.
\<close>

definition Piece_ctor :: "nat \<Rightarrow> nat \<Rightarrow> Piece \<times> nat" where
  "Piece_ctor rd ci =
     (\<lparr>tileGrid = DEFAULT_PIECES ! (rd mod NUM_DEFAULT_PIECES),
       color = DEFAULT_COLORS ! ci, row = 0, col = 0\<rparr>,
      (ci + 1) mod length DEFAULT_COLORS)"

text \<open>The loop nest of \<^verbatim>\<open>Piece::rotate\<close> filling \<^verbatim>\<open>newTileGrid\<close>.\<close>

definition rotated :: "TileGridType \<Rightarrow> TileGridType" where
  "rotated tg =
     fold (\<lambda>(sourceRow, sourceCol) newTileGrid.
             let destRow = sourceCol; destCol = MAX_HEIGHT - sourceRow - 1 in
             set_tile newTileGrid destRow destCol (tile tg sourceRow sourceCol))
          subCells no_tiles"

text \<open>
  \<^verbatim>\<open>Piece::rotate\<close>, named \<open>rotate_piece\<close> because the list library has a \<open>rotate\<close>
  of its own. \<^verbatim>\<open>moveTo\<close> sets the anchor only; the footprint is assigned here, after a
  successful \<^verbatim>\<open>moveTo\<close>.
\<close>

definition rotate_piece :: "nat \<Rightarrow> Board \<Rightarrow> Board option" where
  "rotate_piece this board =
     (if this \<ge> length (pieces board) then None
      else
        let p = pieces board ! this; newTileGrid = rotated (tileGrid p) in
        case moveTo this (row p) (col p) newTileGrid board of
          None \<Rightarrow> None
        | Some (ok, board') \<Rightarrow>
            if ok
            then Some (board'\<lparr>pieces := (pieces board')
                         [this := (pieces board' ! this)\<lparr>tileGrid := newTileGrid\<rparr>]\<rparr>)
            else Some board')"

text \<open>\<^verbatim>\<open>Piece::move\<close>: the result is \<^verbatim>\<open>!moveTo(...) && direction == Direction::DOWN\<close>.\<close>

definition move :: "Direction \<Rightarrow> nat \<Rightarrow> Board \<Rightarrow> (bool \<times> Board) option" where
  "move direction this board =
     (if this \<ge> length (pieces board) then None
      else
        let p = pieces board ! this;
            newRow = row p + (if direction = DOWN then 1 else 0) - (if direction = UP then 1 else 0);
            newCol = col p + (if direction = RIGHT then 1 else 0) - (if direction = LEFT then 1 else 0)
        in case moveTo this newRow newCol (tileGrid p) board of
             None \<Rightarrow> None
           | Some (ok, board') \<Rightarrow> Some (\<not> ok \<and> direction = DOWN, board'))"

text \<open>
  \<^verbatim>\<open>Piece::removeTile\<close>: \<^verbatim>\<open>tileGrid[subRow][subCol]\<close> is read with no range check, so an
  offset outside the 4 by 4 array has no defined result.
\<close>

definition removeTile :: "nat \<Rightarrow> int \<Rightarrow> int \<Rightarrow> Board \<Rightarrow> Board option" where
  "removeTile this rowToRemove colToRemove board =
     (if this \<ge> length (pieces board) then None
      else
        let p = pieces board ! this;
            subRow = rowToRemove - row p;
            subCol = colToRemove - col p
        in if subRow < 0 \<or> subRow \<ge> MAX_HEIGHT \<or> subCol < 0 \<or> subCol \<ge> MAX_WIDTH then None
           else if \<not> tile (tileGrid p) subRow subCol then Some board
           else Some (board\<lparr>pieces := (pieces board)
                        [this := p\<lparr>tileGrid := set_tile (tileGrid p) subRow subCol False\<rparr>]\<rparr>))"

section \<open>Board\<close>

text \<open>
  \<^verbatim>\<open>Board::Board\<close>: one piece is constructed into the vector and made active; the grid
  stays all null. \<open>rd\<close> is the random draw of that first piece; the static \<^verbatim>\<open>colorIndex\<close>
  starts at 0.
\<close>

definition Board_ctor :: "nat \<Rightarrow> Board" where
  "Board_ctor rd =
     (let (p, ci) = Piece_ctor rd 0
      in \<lparr>pieceGrid = empty_grid, pieces = [p], activePiece = Some 0,
          rowsCompleted = 0, colorIndex = ci\<rparr>)"

text \<open>
  \<^verbatim>\<open>Board::isRowFull\<close>. \<^verbatim>\<open>rowsCompleted++\<close> is the increment on \<open>int\<close>; it agrees with the C++
  as long as the counter is below 2147483647.
\<close>

definition isRowFull :: "int \<Rightarrow> Board \<Rightarrow> (bool \<times> Board) option" where
  "isRowFull r board =
     (if r < 0 \<or> r \<ge> NUM_ROWS then None
      else if list_ex (\<lambda>c. grid_at (pieceGrid board) r c = None) [0..NUM_COLS - 1]
      then Some (False, board)
      else Some (True, board\<lparr>rowsCompleted := rowsCompleted board + 1\<rparr>))"

text \<open>
  The column loop of \<^verbatim>\<open>collapseFullRows\<close>:
  \<^verbatim>\<open>pieceGrid[row][col]->removeTile(...); pieceGrid[row][col] = nullptr;\<close>
\<close>

fun clear_row :: "int \<Rightarrow> int list \<Rightarrow> Board \<Rightarrow> Board option" where
  "clear_row r [] board = Some board"
| "clear_row r (c # cs) board =
     (case grid_at (pieceGrid board) r c of
        None \<Rightarrow> None
      | Some p \<Rightarrow>
         (case removeTile p r c board of
            None \<Rightarrow> None
          | Some board' \<Rightarrow>
              clear_row r cs (board'\<lparr>pieceGrid := grid_set (pieceGrid board') r c None\<rparr>)))"

text \<open>The predicate of \<^verbatim>\<open>std::remove_if\<close>: the piece has no tile left.\<close>

definition has_no_tiles :: "Piece \<Rightarrow> bool" where
  "has_no_tiles piece \<longleftrightarrow> \<not> list_ex (\<lambda>(r, c). tile (tileGrid piece) r c) subCells"

text \<open>
  \<^verbatim>\<open>for (Piece& piece : pieces) piece.moveTo(piece.row, piece.col, piece.tileGrid, *this);\<close>
  over the slots \<open>is\<close>; the result of \<^verbatim>\<open>moveTo\<close> is dropped.
\<close>

fun rewrite_grid :: "nat list \<Rightarrow> Board \<Rightarrow> Board option" where
  "rewrite_grid [] board = Some board"
| "rewrite_grid (i # is) board =
     (if i \<ge> length (pieces board) then None
      else
        let p = pieces board ! i in
        case moveTo i (row p) (col p) (tileGrid p) board of
          None \<Rightarrow> None
        | Some (ok, board') \<Rightarrow> rewrite_grid is board')"

text \<open>\<^verbatim>\<open>while (!piece.move(Direction::DOWN, *this)) {}\<close>; \<open>None\<close> when it never exits.\<close>

partial_function (option) fall :: "nat \<Rightarrow> Board \<Rightarrow> Board option" where
  "fall this board =
     (case move DOWN this board of
        None \<Rightarrow> None
      | Some r \<Rightarrow> if fst r then Some (snd r) else fall this (snd r))"

declare fall.simps [code]

fun settle :: "nat list \<Rightarrow> Board \<Rightarrow> Board option" where
  "settle [] board = Some board"
| "settle (i # is) board =
     (case fall i board of
        None \<Rightarrow> None
      | Some board' \<Rightarrow> settle is board')"

text \<open>One iteration of the row loop of \<^verbatim>\<open>Board::collapseFullRows\<close>.\<close>

definition collapse_row :: "int \<Rightarrow> Board \<Rightarrow> Board option" where
  "collapse_row r board =
     (case isRowFull r board of
        None \<Rightarrow> None
      | Some (full, b0) \<Rightarrow>
          if \<not> full then Some b0
          else
            (case clear_row r [0..NUM_COLS - 1] b0 of
               None \<Rightarrow> None
             | Some b1 \<Rightarrow>
                 let b2 = b1\<lparr>pieces := filter (\<lambda>p. \<not> has_no_tiles p) (pieces b1)\<rparr>;
                     b3 = b2\<lparr>pieceGrid := empty_grid\<rparr>
                 in case rewrite_grid [0..<length (pieces b3)] b3 of
                      None \<Rightarrow> None
                    | Some b4 \<Rightarrow> settle [0..<length (pieces b4)] b4))"

fun collapse_rows :: "int list \<Rightarrow> Board \<Rightarrow> Board option" where
  "collapse_rows [] board = Some board"
| "collapse_rows (r # rs) board =
     (case collapse_row r board of
        None \<Rightarrow> None
      | Some board' \<Rightarrow> collapse_rows rs board')"

definition collapseFullRows :: "Board \<Rightarrow> Board option" where
  "collapseFullRows board = collapse_rows [0..NUM_ROWS - 1] board"

text \<open>
  \<^verbatim>\<open>Board::update\<close>. \<open>rd\<close> is the random draw used if a piece is constructed. The constructor
  reserves \<^verbatim>\<open>NUM_ROWS * NUM_COLS\<close> slots; \<^verbatim>\<open>emplace_back\<close> on a vector that already holds that
  many may reallocate, after which every pointer in \<open>pieceGrid\<close> dangles: \<open>None\<close>.
  After \<^verbatim>\<open>pop_back\<close> the pointer \<open>activePiece\<close> is left as it is, one past the last slot.
\<close>

definition update :: "nat \<Rightarrow> Direction \<Rightarrow> Board \<Rightarrow> (bool \<times> Board) option" where
  "update rd direction board =
     (case activePiece board of
        None \<Rightarrow> None
      | Some a \<Rightarrow>
         (case (if direction = UP
                then (case rotate_piece a board of None \<Rightarrow> None | Some b \<Rightarrow> Some (False, b))
                else move direction a board) of
            None \<Rightarrow> None
          | Some (shouldSpawn, b1) \<Rightarrow>
              if \<not> shouldSpawn then Some (True, b1)
              else
                (case collapseFullRows b1 of
                   None \<Rightarrow> None
                 | Some b2 \<Rightarrow>
                     if length (pieces b2) \<ge> nat (NUM_ROWS * NUM_COLS) then None
                     else
                       let (p, ci) = Piece_ctor rd (colorIndex b2);
                           n = length (pieces b2);
                           b3 = b2\<lparr>pieces := pieces b2 @ [p], activePiece := Some n,
                                   colorIndex := ci\<rparr>
                       in case moveTo n (row p) (col p) (tileGrid p) b3 of
                            None \<Rightarrow> None
                          | Some (ok, b4) \<Rightarrow>
                              if \<not> ok then Some (False, b4\<lparr>pieces := butlast (pieces b4)\<rparr>)
                              else Some (True, b4))))"

text \<open>The driver: a sequence of commands, each with its random draw, fed to \<open>update\<close>;
  the result of the last call is returned.\<close>

fun updates :: "(nat \<times> Direction) list \<Rightarrow> bool \<times> Board \<Rightarrow> (bool \<times> Board) option" where
  "updates [] rb = Some rb"
| "updates ((rd, direction) # rest) rb =
     (case update rd direction (snd rb) of
        None \<Rightarrow> None
      | Some rb' \<Rightarrow> updates rest rb')"

section \<open>Occupied cells and the consistency invariant\<close>

text \<open>
  The occupied cells of a piece: its anchor plus every set sub-cell of its footprint,
  in the order in which \<^verbatim>\<open>Piece::draw\<close> paints them and \<^verbatim>\<open>Piece::moveTo\<close> clears them.
\<close>

definition occupiedCells :: "Piece \<Rightarrow> (int \<times> int) list" where
  "occupiedCells p =
     map (\<lambda>(subRow, subCol). (row p + subRow, col p + subCol))
         (filter (\<lambda>(subRow, subCol). tile (tileGrid p) subRow subCol) subCells)"

text \<open>
  \<open>consistent\<close> is invariant I1: for every piece of the collection and every cell of the
  board, the cell is one of the piece's occupied cells exactly when the grid entry of the
  cell points to the piece. \<open>board_inv\<close> adds what the C++ types and the code take for
  granted: the grid has the shape of the array, every occupied cell lies on the board, and
  a non-null grid entry points to a live element of the collection.
\<close>

definition boardCells :: "(int \<times> int) list" where
  "boardCells = List.product [0..NUM_ROWS - 1] [0..NUM_COLS - 1]"

definition consistent :: "Board \<Rightarrow> bool" where
  "consistent board \<longleftrightarrow>
     list_all (\<lambda>i.
        list_all (\<lambda>(r, c).
           ((r, c) \<in> set (occupiedCells (pieces board ! i))) = (grid_at (pieceGrid board) r c = Some i))
         boardCells)
       [0..<length (pieces board)]"

definition board_inv :: "Board \<Rightarrow> bool" where
  "board_inv board \<longleftrightarrow>
     grid_ok (pieceGrid board) \<and>
     list_all (\<lambda>p. list_all (\<lambda>(r, c). in_board r c) (occupiedCells p)) (pieces board) \<and>
     list_all (\<lambda>(r, c). case grid_at (pieceGrid board) r c of
                            None \<Rightarrow> True
                          | Some i \<Rightarrow> i < length (pieces board)) boardCells \<and>
     consistent board"

text \<open>The cells a footprint covers when anchored at \<open>(r0, c0)\<close>, as a set.\<close>

definition cells_at :: "int \<Rightarrow> int \<Rightarrow> TileGridType \<Rightarrow> (int \<times> int) set" where
  "cells_at r0 c0 tg = {(r0 + sr, c0 + sc) | sr sc. (sr, sc) \<in> set subCells \<and> tile tg sr sc}"

text \<open>What \<open>move\<close>, \<open>fall\<close> and \<open>settle\<close> leave alone: everything but the grid and the anchors.\<close>

definition same_shapes :: "Board \<Rightarrow> Board \<Rightarrow> bool" where
  "same_shapes b b' \<longleftrightarrow>
     map tileGrid (pieces b') = map tileGrid (pieces b) \<and>
     rowsCompleted b' = rowsCompleted b \<and> colorIndex b' = colorIndex b \<and>
     activePiece b' = activePiece b"

text \<open>
  A board with five I pieces: piece 0 lies on piece 1, which lies on the row of pieces 2, 3
  and 4 that fills row 19.
\<close>

definition I_at :: "int \<Rightarrow> int \<Rightarrow> Color \<Rightarrow> Piece" where
  "I_at r c k = \<lparr>tileGrid = DEFAULT_PIECES ! 0, color = k, row = r, col = c\<rparr>"

definition floating_board :: Board where
  "floating_board =
     \<lparr>pieceGrid =
        replicate 17 (replicate 12 None) @
        [replicate 4 (Some 0) @ replicate 8 None,
         replicate 4 (Some 1) @ replicate 8 None,
         replicate 4 (Some 2) @ replicate 4 (Some 3) @ replicate 4 (Some 4)],
      pieces = [I_at 17 0 RED, I_at 18 0 GREEN, I_at 19 0 BLUE, I_at 19 4 RED, I_at 19 8 GREEN],
      activePiece = Some 4, rowsCompleted = 0, colorIndex = 2\<rparr>"

text \<open>A board with one I piece at the anchor (0, 0), written into the grid.\<close>

definition one_piece_board :: Board where
  "one_piece_board =
     \<lparr>pieceGrid =
        (replicate 4 (Some 0) @ replicate 8 None) # replicate 19 (replicate 12 None),
      pieces = [I_at 0 0 RED], activePiece = Some 0, rowsCompleted = 0, colorIndex = 1\<rparr>"

text \<open>
  What is left of the invariant while \<^verbatim>\<open>collapseFullRows\<close> rebuilds the grid: the pieces lie
  on the board and no two of them share a cell (\<open>pieces_ok\<close>), and the grid holds exactly
  the pieces of the slots below \<open>k\<close> (\<open>grid_upto\<close>).
\<close>

definition pieces_ok :: "Piece list \<Rightarrow> bool" where
  "pieces_ok ps \<longleftrightarrow>
     (\<forall>p \<in> set ps. \<forall>(r, c) \<in> set (occupiedCells p). in_board r c) \<and>
     sorted_wrt (\<lambda>p q. set (occupiedCells p) \<inter> set (occupiedCells q) = {}) ps"

definition grid_upto :: "nat \<Rightarrow> Board \<Rightarrow> bool" where
  "grid_upto k board \<longleftrightarrow>
     grid_ok (pieceGrid board) \<and>
     (\<forall>r c i. in_board r c \<longrightarrow>
        (grid_at (pieceGrid board) r c = Some i \<longleftrightarrow>
           i < k \<and> (r, c) \<in> set (occupiedCells (pieces board ! i))))"

text \<open>A board on which an I piece lies at the spawn anchor while the active piece is at the bottom.\<close>

definition blocked_spawn_board :: Board where
  "blocked_spawn_board =
     \<lparr>pieceGrid =
        (replicate 4 (Some 0) @ replicate 8 None) # replicate 18 (replicate 12 None) @
        [replicate 4 (Some 1) @ replicate 8 None],
      pieces = [I_at 0 0 RED, I_at 19 0 GREEN],
      activePiece = Some 1, rowsCompleted = 0, colorIndex = 2\<rparr>"

text \<open>
  A game from the fresh board: a J piece (slot 0) is dropped in column 0, an O piece
  (slot 1) is dropped beside it and pushed left under its overhang, then a T piece and
  three O pieces are dropped so that the last one fills row 19. Each command carries the
  random draw that \<open>update\<close> uses if it constructs a piece.
\<close>

definition overhang_game :: "(nat \<times> Direction) list" where
  "overhang_game =
     replicate 17 (0, DOWN) @ [(4, DOWN)] @
     replicate 2 (0, RIGHT) @ replicate 18 (0, DOWN) @ [(0, LEFT), (1, DOWN)] @
     replicate 3 (0, RIGHT) @ replicate 18 (0, DOWN) @ [(4, DOWN)] @
     replicate 6 (0, RIGHT) @ replicate 18 (0, DOWN) @ [(4, DOWN)] @
     replicate 8 (0, RIGHT) @ replicate 18 (0, DOWN) @ [(4, DOWN)] @
     replicate 10 (0, RIGHT) @ replicate 18 (0, DOWN)"

section \<open>The footprint and the grid\<close>

lemma subCells_eq:
  "subCells = [(0,0),(0,1),(0,2),(0,3),(1,0),(1,1),(1,2),(1,3),
               (2,0),(2,1),(2,2),(2,3),(3,0),(3,1),(3,2),(3,3)]"
  by (simp add: subCells_def MAX_HEIGHT_def MAX_WIDTH_def upto.simps)

lemma set_subCells: "set subCells = {0..3} \<times> {0..3}"
  by (simp add: subCells_def MAX_HEIGHT_def MAX_WIDTH_def)

lemma set_occupiedCells: "set (occupiedCells p) = cells_at (row p) (col p) (tileGrid p)"
  by (auto simp: occupiedCells_def cells_at_def)

lemma cells_at_sub:
  "(r, c) \<in> cells_at r0 c0 tg \<longleftrightarrow>
     (r - r0, c - c0) \<in> set subCells \<and> tile tg (r - r0) (c - c0)"
proof
  assume "(r, c) \<in> cells_at r0 c0 tg"
  then obtain sr sc where "r = r0 + sr" "c = c0 + sc" "(sr, sc) \<in> set subCells" "tile tg sr sc"
    unfolding cells_at_def by blast
  then show "(r - r0, c - c0) \<in> set subCells \<and> tile tg (r - r0) (c - c0)" by simp
next
  assume a: "(r - r0, c - c0) \<in> set subCells \<and> tile tg (r - r0) (c - c0)"
  have "r = r0 + (r - r0)" "c = c0 + (c - c0)" by simp_all
  with a show "(r, c) \<in> cells_at r0 c0 tg"
    unfolding cells_at_def by blast
qed

lemma cells_at_iff:
  "(r, c) \<in> cells_at r0 c0 tg \<longleftrightarrow>
     0 \<le> r - r0 \<and> r - r0 < 4 \<and> 0 \<le> c - c0 \<and> c - c0 < 4 \<and> tile tg (r - r0) (c - c0)"
  by (auto simp: cells_at_sub set_subCells)

lemma cells_at_add:
  "(sr, sc) \<in> set subCells \<Longrightarrow> tile tg sr sc \<Longrightarrow> (r0 + sr, c0 + sc) \<in> cells_at r0 c0 tg"
  unfolding cells_at_def by blast

lemma grid_at_set:
  assumes "grid_ok g" "in_board r c" "in_board r' c'"
  shows "grid_at (grid_set g r c v) r' c' = (if r' = r \<and> c' = c then v else grid_at g r' c')"
proof -
  have lg: "nat r < length g" "nat r' < length g"
    using assms by (auto simp: grid_ok_def in_board_def NUM_ROWS_def)
  have lr: "nat c < length (g ! nat r)"
    using assms lg by (auto simp: grid_ok_def in_board_def NUM_COLS_def list_all_length)
  have eqs: "nat r' = nat r \<longleftrightarrow> r' = r" "nat c' = nat c \<longleftrightarrow> c' = c"
    using assms by (auto simp: in_board_def)
  show ?thesis
    using lg lr eqs by (auto simp: grid_at_def grid_set_def nth_list_update)
qed

lemma grid_ok_set: "grid_ok g \<Longrightarrow> grid_ok (grid_set g r c v)"
  by (cases "nat r < length g")
     (auto simp: grid_ok_def grid_set_def list_all_length nth_list_update)

lemma grid_ok_empty: "grid_ok empty_grid"
  by (simp add: grid_ok_def empty_grid_def list_all_length)

lemma grid_at_empty: "in_board r c \<Longrightarrow> grid_at empty_grid r c = None"
proof -
  assume "in_board r c"
  then have "nat r < 20" "nat c < 12"
    by (auto simp: in_board_def NUM_ROWS_def NUM_COLS_def)
  then show ?thesis
    by (simp add: grid_at_def empty_grid_def NUM_ROWS_def NUM_COLS_def)
qed

lemma validate_iff:
  "validate this nr nc tg g cells \<longleftrightarrow>
     (\<forall>(sr, sc) \<in> set cells. tile tg sr sc \<longrightarrow>
        in_board (nr + sr) (nc + sc) \<and>
        (grid_at g (nr + sr) (nc + sc) = None \<or> grid_at g (nr + sr) (nc + sc) = Some this))"
proof (induction cells)
  case Nil
  then show ?case by simp
next
  case (Cons a cells)
  obtain sr sc where a: "a = (sr, sc)" by (cases a)
  show ?case
    unfolding a by (simp add: Let_def in_board_def Cons.IH)
qed

lemma validate_subCells:
  "validate this nr nc tg g subCells \<longleftrightarrow>
     (\<forall>(r, c) \<in> cells_at nr nc tg. in_board r c \<and> (grid_at g r c = None \<or> grid_at g r c = Some this))"
proof -
  have "(\<forall>(r, c) \<in> cells_at nr nc tg. P r c) \<longleftrightarrow>
        (\<forall>(sr, sc) \<in> set subCells. tile tg sr sc \<longrightarrow> P (nr + sr) (nc + sc))" for P
    unfolding cells_at_def by blast
  then show ?thesis by (simp add: validate_iff)
qed

lemma write_cells_None_iff:
  "write_cells v r0 c0 tg cells g = None \<longleftrightarrow>
     (\<exists>(sr, sc) \<in> set cells. tile tg sr sc \<and> \<not> in_board (r0 + sr) (c0 + sc))"
proof (induction cells arbitrary: g)
  case Nil
  then show ?case by simp
next
  case (Cons a cells)
  obtain sr sc where a: "a = (sr, sc)" by (cases a)
  show ?case
    unfolding a by (simp add: Let_def Cons.IH)
qed

lemma write_cells_Some:
  assumes "write_cells v r0 c0 tg cells g = Some g'" "grid_ok g"
  shows "grid_ok g' \<and>
     (\<forall>r c. in_board r c \<longrightarrow>
        grid_at g' r c =
          (if (r - r0, c - c0) \<in> set cells \<and> tile tg (r - r0) (c - c0) then v else grid_at g r c))"
  using assms
proof (induction cells arbitrary: g)
  case Nil
  then show ?case by simp
next
  case (Cons a cells)
  obtain sr sc where a: "a = (sr, sc)" by (cases a)
  show ?case
  proof (cases "tile tg sr sc")
    case False
    with Cons a show ?thesis by auto
  next
    case True
    with Cons.prems a have ib: "in_board (r0 + sr) (c0 + sc)"
      by (auto simp: Let_def split: if_splits)
    with Cons.prems a True
    have w: "write_cells v r0 c0 tg cells (grid_set g (r0 + sr) (c0 + sc) v) = Some g'"
      by (simp add: Let_def)
    have ok: "grid_ok (grid_set g (r0 + sr) (c0 + sc) v)"
      using Cons.prems by (simp add: grid_ok_set)
    from Cons.IH [OF w ok] have ih1: "grid_ok g'" and
      ih2: "\<And>r c. in_board r c \<Longrightarrow> grid_at g' r c =
          (if (r - r0, c - c0) \<in> set cells \<and> tile tg (r - r0) (c - c0) then v
           else grid_at (grid_set g (r0 + sr) (c0 + sc) v) r c)"
      by auto
    show ?thesis
    proof (intro conjI allI impI)
      show "grid_ok g'" by (rule ih1)
    next
      fix r c assume rc: "in_board r c"
      have e: "(r - r0 = sr \<and> c - c0 = sc) \<longleftrightarrow> (r = r0 + sr \<and> c = c0 + sc)" by auto
      show "grid_at g' r c =
          (if (r - r0, c - c0) \<in> set (a # cells) \<and> tile tg (r - r0) (c - c0) then v else grid_at g r c)"
        using ih2 [OF rc] grid_at_set [OF Cons.prems(2) ib rc, of v] True a e
        by auto
    qed
  qed
qed

lemma write_cells_subCells:
  assumes "\<forall>(r, c) \<in> cells_at r0 c0 tg. in_board r c" "grid_ok g"
  shows "\<exists>g'. write_cells v r0 c0 tg subCells g = Some g' \<and> grid_ok g' \<and>
     (\<forall>r c. in_board r c \<longrightarrow>
        grid_at g' r c = (if (r, c) \<in> cells_at r0 c0 tg then v else grid_at g r c))"
proof -
  have "write_cells v r0 c0 tg subCells g \<noteq> None"
    unfolding write_cells_None_iff using assms(1) cells_at_add by blast
  then obtain g' where g': "write_cells v r0 c0 tg subCells g = Some g'" by auto
  show ?thesis
    using write_cells_Some [OF g' assms(2)] g' by (simp add: cells_at_sub)
qed

lemma rotated_Array4:
  "rotated (Array4 (Array4 a0 a1 a2 a3) (Array4 b0 b1 b2 b3) (Array4 c0 c1 c2 c3) (Array4 d0 d1 d2 d3))
   = Array4 (Array4 d0 c0 b0 a0) (Array4 d1 c1 b1 a1) (Array4 d2 c2 b2 a2) (Array4 d3 c3 b3 a3)"
  by (simp add: rotated_def subCells_eq no_tiles_def set_tile_def tile_def MAX_HEIGHT_def)

lemma array4_exhaust2:
  obtains a0 a1 a2 a3 b0 b1 b2 b3 c0 c1 c2 c3 d0 d1 d2 d3 where
   "tg = Array4 (Array4 a0 a1 a2 a3) (Array4 b0 b1 b2 b3) (Array4 c0 c1 c2 c3) (Array4 d0 d1 d2 d3)"
proof (cases tg)
  case (Array4 a b c d)
  then show ?thesis
    using that by (cases a; cases b; cases c; cases d) simp
qed

lemma tile_rotated:
  assumes "0 \<le> r" "r < 4" "0 \<le> c" "c < 4"
  shows "tile (rotated tg) c (4 - 1 - r) = tile tg r c"
proof -
  have r: "r = 0 \<or> r = 1 \<or> r = 2 \<or> r = 3" using assms by arith
  have c: "c = 0 \<or> c = 1 \<or> c = 2 \<or> c = 3" using assms by arith
  show ?thesis
    by (rule array4_exhaust2 [of tg]) (use r c in \<open>auto simp: rotated_Array4 tile_def\<close>)
qed

section \<open>Relocation keeps the invariant\<close>

lemma set_boardCells: "set boardCells = {(r, c). in_board r c}"
  by (auto simp: boardCells_def in_board_def NUM_ROWS_def NUM_COLS_def)

lemma consistent_iff:
  "consistent board \<longleftrightarrow>
     (\<forall>i < length (pieces board). \<forall>r c. in_board r c \<longrightarrow>
        ((r, c) \<in> set (occupiedCells (pieces board ! i)) \<longleftrightarrow> grid_at (pieceGrid board) r c = Some i))"
  by (auto simp: consistent_def list_all_iff set_boardCells)

lemma board_inv_consistent: "board_inv board \<Longrightarrow> consistent board"
  by (simp add: board_inv_def)

lemma board_inv_iff:
  "board_inv board \<longleftrightarrow>
     grid_ok (pieceGrid board) \<and>
     (\<forall>i < length (pieces board). \<forall>(r, c) \<in> set (occupiedCells (pieces board ! i)). in_board r c) \<and>
     (\<forall>r c i. in_board r c \<longrightarrow>
        (grid_at (pieceGrid board) r c = Some i \<longleftrightarrow>
           i < length (pieces board) \<and> (r, c) \<in> set (occupiedCells (pieces board ! i))))"
  (is "?L \<longleftrightarrow> ?G \<and> ?B \<and> ?C")
proof
  assume l: ?L
  then have g: ?G and c: "consistent board"
    and b: "\<forall>p \<in> set (pieces board). \<forall>(r, c) \<in> set (occupiedCells p). in_board r c"
    and d: "\<And>r c i. in_board r c \<Longrightarrow> grid_at (pieceGrid board) r c = Some i \<Longrightarrow> i < length (pieces board)"
    by (auto simp: board_inv_def list_all_iff set_boardCells split: option.splits)
  from b have ?B by (auto simp: all_set_conv_all_nth)
  moreover have ?C
    using c d unfolding consistent_iff by blast
  ultimately show "?G \<and> ?B \<and> ?C" using g by blast
next
  assume r: "?G \<and> ?B \<and> ?C"
  then have "consistent board" unfolding consistent_iff by blast
  moreover from r have "\<forall>p \<in> set (pieces board). \<forall>(r, c) \<in> set (occupiedCells p). in_board r c"
    by (auto simp: all_set_conv_all_nth)
  ultimately show ?L
    using r by (auto simp: board_inv_def list_all_iff set_boardCells split: option.splits)
qed

lemma moveTo_fail:
  "this < length (pieces board) \<Longrightarrow>
   \<not> validate this nr nc ntg (pieceGrid board) subCells \<Longrightarrow>
   moveTo this nr nc ntg board = Some (False, board)"
  by (simp add: moveTo_def)

lemma moveTo_ok:
  assumes g: "grid_ok (pieceGrid board)"
    and t: "this < length (pieces board)"
    and old: "\<forall>(r, c) \<in> set (occupiedCells (pieces board ! this)). in_board r c"
    and v: "validate this nr nc ntg (pieceGrid board) subCells"
  shows "\<exists>g2. moveTo this nr nc ntg board =
            Some (True, board\<lparr>pieceGrid := g2,
                   pieces := (pieces board)[this := (pieces board ! this)\<lparr>row := nr, col := nc\<rparr>]\<rparr>)
          \<and> grid_ok g2
          \<and> (\<forall>r c. in_board r c \<longrightarrow>
                grid_at g2 r c =
                  (if (r, c) \<in> cells_at nr nc ntg then Some this
                   else if (r, c) \<in> set (occupiedCells (pieces board ! this)) then None
                   else grid_at (pieceGrid board) r c))"
proof -
  let ?p = "pieces board ! this"
  from old have old': "\<forall>(r, c) \<in> cells_at (row ?p) (col ?p) (tileGrid ?p). in_board r c"
    by (simp add: set_occupiedCells)
  from write_cells_subCells [OF old' g, of None]
  obtain g1 where g1: "write_cells None (row ?p) (col ?p) (tileGrid ?p) subCells (pieceGrid board) = Some g1"
    and g1ok: "grid_ok g1"
    and g1at: "\<And>r c. in_board r c \<Longrightarrow>
        grid_at g1 r c = (if (r, c) \<in> cells_at (row ?p) (col ?p) (tileGrid ?p) then None
                          else grid_at (pieceGrid board) r c)"
    by blast
  from v have new: "\<forall>(r, c) \<in> cells_at nr nc ntg. in_board r c"
    unfolding validate_subCells by blast
  from write_cells_subCells [OF new g1ok, of "Some this"]
  obtain g2 where g2: "write_cells (Some this) nr nc ntg subCells g1 = Some g2"
    and g2ok: "grid_ok g2"
    and g2at: "\<And>r c. in_board r c \<Longrightarrow>
        grid_at g2 r c = (if (r, c) \<in> cells_at nr nc ntg then Some this else grid_at g1 r c)"
    by blast
  have "moveTo this nr nc ntg board =
            Some (True, board\<lparr>pieceGrid := g2,
                   pieces := (pieces board)[this := ?p\<lparr>row := nr, col := nc\<rparr>]\<rparr>)"
    using t v g1 g2 by (simp add: moveTo_def Let_def)
  moreover have "\<forall>r c. in_board r c \<longrightarrow>
                grid_at g2 r c =
                  (if (r, c) \<in> cells_at nr nc ntg then Some this
                   else if (r, c) \<in> set (occupiedCells ?p) then None
                   else grid_at (pieceGrid board) r c)"
    using g2at g1at by (simp add: set_occupiedCells)
  ultimately show ?thesis using g2ok by blast
qed

text \<open>Placing piece \<open>this\<close> with anchor and footprint validated keeps the invariant.\<close>

lemma place_inv:
  assumes inv: "board_inv board"
    and t: "this < length (pieces board)"
    and v: "validate this nr nc ntg (pieceGrid board) subCells"
    and g2ok: "grid_ok g2"
    and g2at: "\<forall>r c. in_board r c \<longrightarrow>
                grid_at g2 r c =
                  (if (r, c) \<in> cells_at nr nc ntg then Some this
                   else if (r, c) \<in> set (occupiedCells (pieces board ! this)) then None
                   else grid_at (pieceGrid board) r c)"
    and q: "tileGrid q = ntg" "row q = nr" "col q = nc"
  shows "board_inv (board\<lparr>pieceGrid := g2, pieces := (pieces board)[this := q]\<rparr>)"
proof -
  let ?g = "pieceGrid board" and ?ps = "pieces board"
  have oq: "set (occupiedCells q) = cells_at nr nc ntg"
    using q by (simp add: set_occupiedCells)
  from v have new: "\<And>r c. (r, c) \<in> cells_at nr nc ntg \<Longrightarrow>
      in_board r c \<and> (grid_at ?g r c = None \<or> grid_at ?g r c = Some this)"
    unfolding validate_subCells by blast
  from inv have inb: "\<And>i r c. i < length ?ps \<Longrightarrow> (r, c) \<in> set (occupiedCells (?ps ! i)) \<Longrightarrow> in_board r c"
    and own: "\<And>r c i. in_board r c \<Longrightarrow>
        (grid_at ?g r c = Some i \<longleftrightarrow> i < length ?ps \<and> (r, c) \<in> set (occupiedCells (?ps ! i)))"
    unfolding board_inv_iff by blast+
  have occ: "\<And>i. i < length ?ps \<Longrightarrow>
      set (occupiedCells (?ps[this := q] ! i)) =
        (if i = this then cells_at nr nc ntg else set (occupiedCells (?ps ! i)))"
    using t oq by (simp add: nth_list_update)
  show ?thesis
    unfolding board_inv_iff
  proof (intro conjI allI impI)
    show "grid_ok (pieceGrid (board\<lparr>pieceGrid := g2, pieces := ?ps[this := q]\<rparr>))"
      using g2ok by simp
  next
    fix i assume "i < length (pieces (board\<lparr>pieceGrid := g2, pieces := ?ps[this := q]\<rparr>))"
    then have i: "i < length ?ps" by simp
    show "\<forall>(r, c) \<in> set (occupiedCells (pieces (board\<lparr>pieceGrid := g2, pieces := ?ps[this := q]\<rparr>) ! i)).
            in_board r c"
      using occ [OF i] new inb [OF i] by auto
  next
    fix r c i assume rc: "in_board r c"
    have g2rc: "grid_at g2 r c =
                  (if (r, c) \<in> cells_at nr nc ntg then Some this
                   else if (r, c) \<in> set (occupiedCells (?ps ! this)) then None
                   else grid_at ?g r c)"
      using g2at rc by blast
    show "grid_at (pieceGrid (board\<lparr>pieceGrid := g2, pieces := ?ps[this := q]\<rparr>)) r c = Some i \<longleftrightarrow>
          i < length (pieces (board\<lparr>pieceGrid := g2, pieces := ?ps[this := q]\<rparr>)) \<and>
          (r, c) \<in> set (occupiedCells (pieces (board\<lparr>pieceGrid := g2, pieces := ?ps[this := q]\<rparr>) ! i))"
    proof (cases "i < length ?ps")
      case False
      then have "grid_at ?g r c \<noteq> Some i" using own [OF rc] by blast
      with False g2rc t show ?thesis by auto
    next
      case True
      show ?thesis
      proof (cases "i = this")
        case True
        then show ?thesis
          using g2rc t occ [of this] own [OF rc, of this] by auto
      next
        case False
        have "(r, c) \<in> set (occupiedCells (?ps ! i)) \<Longrightarrow>
              (r, c) \<notin> cells_at nr nc ntg \<and> (r, c) \<notin> set (occupiedCells (?ps ! this))"
          using own [OF rc, of i] own [OF rc, of this] new [of r c] False True t by auto
        then show ?thesis
          using g2rc True False occ [OF True] own [OF rc, of i] own [OF rc, of this] by auto
      qed
    qed
  qed
qed

lemma moveTo_same_footprint:
  assumes inv: "board_inv board" and t: "this < length (pieces board)"
  shows "(\<not> validate this nr nc (tileGrid (pieces board ! this)) (pieceGrid board) subCells \<longrightarrow>
            moveTo this nr nc (tileGrid (pieces board ! this)) board = Some (False, board)) \<and>
         (validate this nr nc (tileGrid (pieces board ! this)) (pieceGrid board) subCells \<longrightarrow>
            (\<exists>g2. moveTo this nr nc (tileGrid (pieces board ! this)) board =
               Some (True, board\<lparr>pieceGrid := g2,
                      pieces := (pieces board)[this := (pieces board ! this)\<lparr>row := nr, col := nc\<rparr>]\<rparr>)
              \<and> board_inv (board\<lparr>pieceGrid := g2,
                      pieces := (pieces board)[this := (pieces board ! this)\<lparr>row := nr, col := nc\<rparr>]\<rparr>)))"
proof (intro conjI impI)
  assume "\<not> validate this nr nc (tileGrid (pieces board ! this)) (pieceGrid board) subCells"
  then show "moveTo this nr nc (tileGrid (pieces board ! this)) board = Some (False, board)"
    using t by (rule moveTo_fail [rotated])
next
  let ?p = "pieces board ! this"
  assume v: "validate this nr nc (tileGrid ?p) (pieceGrid board) subCells"
  from inv have g: "grid_ok (pieceGrid board)"
    and old: "\<forall>(r, c) \<in> set (occupiedCells ?p). in_board r c"
    using t unfolding board_inv_iff by blast+
  from moveTo_ok [OF g t old v]
  obtain g2 where m: "moveTo this nr nc (tileGrid ?p) board =
            Some (True, board\<lparr>pieceGrid := g2, pieces := (pieces board)[this := ?p\<lparr>row := nr, col := nc\<rparr>]\<rparr>)"
    and g2ok: "grid_ok g2"
    and g2at: "\<forall>r c. in_board r c \<longrightarrow>
                grid_at g2 r c =
                  (if (r, c) \<in> cells_at nr nc (tileGrid ?p) then Some this
                   else if (r, c) \<in> set (occupiedCells ?p) then None
                   else grid_at (pieceGrid board) r c)"
    by blast
  have "board_inv (board\<lparr>pieceGrid := g2, pieces := (pieces board)[this := ?p\<lparr>row := nr, col := nc\<rparr>]\<rparr>)"
    by (rule place_inv [OF inv t v g2ok g2at]) simp_all
  with m show "\<exists>g2. moveTo this nr nc (tileGrid ?p) board =
               Some (True, board\<lparr>pieceGrid := g2, pieces := (pieces board)[this := ?p\<lparr>row := nr, col := nc\<rparr>]\<rparr>)
              \<and> board_inv (board\<lparr>pieceGrid := g2, pieces := (pieces board)[this := ?p\<lparr>row := nr, col := nc\<rparr>]\<rparr>)"
    by blast
qed

lemma same_shapes_refl: "same_shapes b b"
  by (simp add: same_shapes_def)

lemma same_shapes_trans: "same_shapes a b \<Longrightarrow> same_shapes b c \<Longrightarrow> same_shapes a c"
  by (simp add: same_shapes_def)

lemma same_shapes_length: "same_shapes b b' \<Longrightarrow> length (pieces b') = length (pieces b)"
  unfolding same_shapes_def by (metis length_map)

lemma same_shapes_tileGrid:
  "same_shapes b b' \<Longrightarrow> i < length (pieces b) \<Longrightarrow> tileGrid (pieces b' ! i) = tileGrid (pieces b ! i)"
  unfolding same_shapes_def by (metis length_map nth_map)

lemma same_shapes_anchor:
  "this < length (pieces b) \<Longrightarrow>
   same_shapes b (b\<lparr>pieceGrid := g2, pieces := (pieces b)[this := (pieces b ! this)\<lparr>row := nr, col := nc\<rparr>]\<rparr>)"
  by (simp add: same_shapes_def map_update list_update_same_conv)

lemma move_inv:
  assumes inv: "board_inv board" and t: "this < length (pieces board)"
  shows "\<exists>stop board'. move direction this board = Some (stop, board') \<and>
           board_inv board' \<and> same_shapes board board' \<and>
           (stop \<longrightarrow> board' = board \<and> direction = DOWN) \<and>
           (\<not> stop \<and> direction = DOWN \<longrightarrow> row (pieces board' ! this) = row (pieces board ! this) + 1)"
proof -
  let ?p = "pieces board ! this"
  let ?nr = "row ?p + (if direction = DOWN then 1 else 0) - (if direction = UP then 1 else 0)"
  let ?nc = "col ?p + (if direction = RIGHT then 1 else 0) - (if direction = LEFT then 1 else 0)"
  show ?thesis
  proof (cases "validate this ?nr ?nc (tileGrid ?p) (pieceGrid board) subCells")
    case False
    with moveTo_same_footprint [OF inv t, of ?nr ?nc]
    have "moveTo this ?nr ?nc (tileGrid ?p) board = Some (False, board)" by blast
    then have "move direction this board = Some (direction = DOWN, board)"
      using t by (simp add: move_def Let_def)
    then show ?thesis using inv by (auto simp: same_shapes_refl)
  next
    case True
    with moveTo_same_footprint [OF inv t, of ?nr ?nc]
    obtain g2 where m: "moveTo this ?nr ?nc (tileGrid ?p) board =
               Some (True, board\<lparr>pieceGrid := g2, pieces := (pieces board)[this := ?p\<lparr>row := ?nr, col := ?nc\<rparr>]\<rparr>)"
      and i: "board_inv (board\<lparr>pieceGrid := g2, pieces := (pieces board)[this := ?p\<lparr>row := ?nr, col := ?nc\<rparr>]\<rparr>)"
      by blast
    let ?b' = "board\<lparr>pieceGrid := g2, pieces := (pieces board)[this := ?p\<lparr>row := ?nr, col := ?nc\<rparr>]\<rparr>"
    have mv: "move direction this board = Some (False, ?b')"
      using t m by (simp add: move_def Let_def)
    have "direction = DOWN \<longrightarrow> row (pieces ?b' ! this) = row ?p + 1"
      using t by simp
    with mv i same_shapes_anchor [OF t] show ?thesis by auto
  qed
qed

lemma has_no_tiles_iff:
  "has_no_tiles p \<longleftrightarrow> set (occupiedCells p) = {}"
  by (auto simp: has_no_tiles_def list_ex_iff occupiedCells_def filter_empty_conv)

lemma has_tile_cell:
  assumes "\<not> has_no_tiles p"
  shows "\<exists>r c. (r, c) \<in> set (occupiedCells p)"
proof -
  from assms obtain sr sc where "(sr, sc) \<in> set subCells" "tile (tileGrid p) sr sc"
    by (auto simp: has_no_tiles_def list_ex_iff)
  then have "(row p + sr, col p + sc) \<in> set (occupiedCells p)"
    unfolding set_occupiedCells by (rule cells_at_add)
  then show ?thesis by blast
qed

lemma has_no_tiles_cong: "tileGrid p = tileGrid q \<Longrightarrow> has_no_tiles p = has_no_tiles q"
  by (simp add: has_no_tiles_def)

lemma fall_total:
  assumes inv: "board_inv board" and t: "this < length (pieces board)"
    and ne: "\<not> has_no_tiles (pieces board ! this)"
  shows "\<exists>board'. fall this board = Some board' \<and> board_inv board' \<and> same_shapes board board'"
  using assms
proof (induction "nat (NUM_ROWS - row (pieces board ! this))" arbitrary: board rule: less_induct)
  case less
  from move_inv [OF less.prems(1,2), of DOWN]
  obtain stop board' where mv: "move DOWN this board = Some (stop, board')"
    and i': "board_inv board'" and s': "same_shapes board board'"
    and st: "stop \<longrightarrow> board' = board"
    and rw: "\<not> stop \<longrightarrow> row (pieces board' ! this) = row (pieces board ! this) + 1"
    by blast
  show ?case
  proof (cases stop)
    case True
    then have "fall this board = Some board'"
      using mv by (subst fall.simps) simp
    with i' s' show ?thesis by blast
  next
    case False
    have f: "fall this board = fall this board'"
      using mv False by (subst fall.simps) simp
    have t': "this < length (pieces board')"
      using s' less.prems(2) by (simp add: same_shapes_length)
    have ne': "\<not> has_no_tiles (pieces board' ! this)"
      using less.prems(3) same_shapes_tileGrid [OF s' less.prems(2)]
            has_no_tiles_cong [of "pieces board' ! this" "pieces board ! this"] by simp
    from has_tile_cell [OF ne']
    obtain r c where rc: "(r, c) \<in> set (occupiedCells (pieces board' ! this))"
      by blast
    then have "in_board r c" using i' t' unfolding board_inv_iff by blast
    moreover have "row (pieces board' ! this) \<le> r"
      using rc by (auto simp: set_occupiedCells cells_at_iff)
    ultimately have "row (pieces board' ! this) < NUM_ROWS"
      by (simp add: in_board_def)
    then have "nat (NUM_ROWS - row (pieces board' ! this)) < nat (NUM_ROWS - row (pieces board ! this))"
      using rw False by simp
    from less.hyps [OF this i' t' ne']
    obtain b'' where "fall this board' = Some b''" "board_inv b''" "same_shapes board' b''"
      by blast
    with f s' show ?thesis using same_shapes_trans by metis
  qed
qed

lemma settle_total:
  assumes "board_inv board" "\<forall>i \<in> set is. i < length (pieces board)"
    and "\<forall>p \<in> set (pieces board). \<not> has_no_tiles p"
  shows "\<exists>board'. settle is board = Some board' \<and> board_inv board' \<and> same_shapes board board'"
  using assms
proof (induction "is" arbitrary: board)
  case Nil
  then show ?case by (simp add: same_shapes_refl)
next
  case (Cons i "is")
  have i: "i < length (pieces board)" using Cons.prems(2) by simp
  then have "\<not> has_no_tiles (pieces board ! i)" using Cons.prems(3) by simp
  from fall_total [OF Cons.prems(1) i this]
  obtain b1 where f: "fall i board = Some b1" and i1: "board_inv b1" and s1: "same_shapes board b1"
    by blast
  have l1: "length (pieces b1) = length (pieces board)" using s1 by (rule same_shapes_length)
  have a: "\<forall>i \<in> set is. i < length (pieces b1)" using Cons.prems(2) l1 by simp
  have b: "\<forall>p \<in> set (pieces b1). \<not> has_no_tiles p"
  proof
    fix p assume "p \<in> set (pieces b1)"
    then obtain k where k: "k < length (pieces b1)" "p = pieces b1 ! k"
      by (auto simp: in_set_conv_nth)
    then have "tileGrid p = tileGrid (pieces board ! k)"
      using same_shapes_tileGrid [OF s1, of k] l1 by simp
    moreover have "\<not> has_no_tiles (pieces board ! k)"
      using Cons.prems(3) k l1 by simp
    ultimately show "\<not> has_no_tiles p"
      using has_no_tiles_cong by blast
  qed
  from Cons.IH [OF i1 a b]
  obtain b2 where "settle is b1 = Some b2" "board_inv b2" "same_shapes b1 b2" by blast
  with f s1 show ?case using same_shapes_trans by (auto simp: )
qed

lemma at4_upd4:
  assumes "0 \<le> i" "i < 4" "0 \<le> j" "j < 4"
  shows "at4 (upd4 a i v) j = (if j = i then v else at4 a j)"
proof -
  have "i = 0 \<or> i = 1 \<or> i = 2 \<or> i = 3" "j = 0 \<or> j = 1 \<or> j = 2 \<or> j = 3"
    using assms by arith+
  then show ?thesis by (cases a) auto
qed

lemma tile_set_tile:
  assumes "0 \<le> sr" "sr < 4" "0 \<le> sc" "sc < 4" "0 \<le> r" "r < 4" "0 \<le> c" "c < 4"
  shows "tile (set_tile tg sr sc v) r c = (if r = sr \<and> c = sc then v else tile tg r c)"
  using assms by (simp add: tile_def set_tile_def at4_upd4)

section \<open>Clearing a row, rebuilding the grid, spawning\<close>

lemma board_inv_cong:
  "pieceGrid b' = pieceGrid b \<Longrightarrow> pieces b' = pieces b \<Longrightarrow> board_inv b' = board_inv b"
  by (simp add: board_inv_iff)

lemma removeTile_occupied:
  assumes t: "this < length (pieces board)"
    and o: "(rowToRemove, colToRemove) \<in> set (occupiedCells (pieces board ! this))"
  shows "\<exists>p'. removeTile this rowToRemove colToRemove board =
                     Some (board\<lparr>pieces := (pieces board)[this := p']\<rparr>)
                 \<and> set (occupiedCells p') =
                     set (occupiedCells (pieces board ! this)) - {(rowToRemove, colToRemove)}
                 \<and> row p' = row (pieces board ! this) \<and> col p' = col (pieces board ! this)
                 \<and> color p' = color (pieces board ! this)"
proof -
  let ?p = "pieces board ! this"
  let ?sr = "rowToRemove - row ?p" and ?sc = "colToRemove - col ?p"
  let ?p' = "?p\<lparr>tileGrid := set_tile (tileGrid ?p) ?sr ?sc False\<rparr>"
  from o have w: "0 \<le> ?sr" "?sr < 4" "0 \<le> ?sc" "?sc < 4" and tl: "tile (tileGrid ?p) ?sr ?sc"
    by (auto simp: set_occupiedCells cells_at_iff)
  have r: "removeTile this rowToRemove colToRemove board =
             Some (board\<lparr>pieces := (pieces board)[this := ?p']\<rparr>)"
    using t w tl by (simp add: removeTile_def Let_def MAX_HEIGHT_def MAX_WIDTH_def)
  have "(r, c) \<in> set (occupiedCells ?p') \<longleftrightarrow>
        (r, c) \<in> set (occupiedCells ?p) - {(rowToRemove, colToRemove)}" for r c
    using w by (auto simp: set_occupiedCells cells_at_iff tile_set_tile split: if_splits)
  then have "set (occupiedCells ?p') = set (occupiedCells ?p) - {(rowToRemove, colToRemove)}"
    by (meson pred_equals_eq2 subrelI subset_antisym)
  with r show ?thesis by (intro exI [of _ ?p']) simp
qed

lemma clear_cell_inv:
  assumes inv: "board_inv board" and rc: "in_board r c"
    and g: "grid_at (pieceGrid board) r c = Some p"
  shows "\<exists>b1. removeTile p r c board = Some b1 \<and>
           board_inv (b1\<lparr>pieceGrid := grid_set (pieceGrid b1) r c None\<rparr>) \<and>
           length (pieces b1) = length (pieces board) \<and>
           (\<forall>r' c'. in_board r' c' \<and> (r', c') \<noteq> (r, c) \<longrightarrow>
              grid_at (grid_set (pieceGrid b1) r c None) r' c' = grid_at (pieceGrid board) r' c')"
proof -
  let ?g = "pieceGrid board" and ?ps = "pieces board"
  from inv have gok: "grid_ok ?g"
    and inb: "\<And>i r c. i < length ?ps \<Longrightarrow> (r, c) \<in> set (occupiedCells (?ps ! i)) \<Longrightarrow> in_board r c"
    and own: "\<And>r c i. in_board r c \<Longrightarrow>
        (grid_at ?g r c = Some i \<longleftrightarrow> i < length ?ps \<and> (r, c) \<in> set (occupiedCells (?ps ! i)))"
    unfolding board_inv_iff by blast+
  from own [OF rc, of p] g have t: "p < length ?ps" and o: "(r, c) \<in> set (occupiedCells (?ps ! p))"
    by blast+
  from removeTile_occupied [OF t o]
  obtain p' where rm: "removeTile p r c board = Some (board\<lparr>pieces := ?ps[p := p']\<rparr>)"
    and op': "set (occupiedCells p') = set (occupiedCells (?ps ! p)) - {(r, c)}"
    by blast
  let ?b1 = "board\<lparr>pieces := ?ps[p := p']\<rparr>"
  let ?g' = "grid_set ?g r c None"
  have at: "\<And>r' c'. in_board r' c' \<Longrightarrow>
      grid_at ?g' r' c' = (if r' = r \<and> c' = c then None else grid_at ?g r' c')"
    using grid_at_set [OF gok rc] by blast
  have occ: "\<And>i. i < length ?ps \<Longrightarrow>
      set (occupiedCells (?ps[p := p'] ! i)) =
        (if i = p then set (occupiedCells (?ps ! p)) - {(r, c)} else set (occupiedCells (?ps ! i)))"
    using t op' by (simp add: nth_list_update)
  have "board_inv (?b1\<lparr>pieceGrid := ?g'\<rparr>)"
    unfolding board_inv_iff
  proof (intro conjI allI impI)
    show "grid_ok (pieceGrid (?b1\<lparr>pieceGrid := ?g'\<rparr>))"
      using gok by (simp add: grid_ok_set)
  next
    fix i assume "i < length (pieces (?b1\<lparr>pieceGrid := ?g'\<rparr>))"
    then have i: "i < length ?ps" by simp
    show "\<forall>(r, c) \<in> set (occupiedCells (pieces (?b1\<lparr>pieceGrid := ?g'\<rparr>) ! i)). in_board r c"
      using occ [OF i] inb [OF i] by (auto split: if_splits)
  next
    fix r' c' i assume rc': "in_board r' c'"
    show "grid_at (pieceGrid (?b1\<lparr>pieceGrid := ?g'\<rparr>)) r' c' = Some i \<longleftrightarrow>
          i < length (pieces (?b1\<lparr>pieceGrid := ?g'\<rparr>)) \<and>
          (r', c') \<in> set (occupiedCells (pieces (?b1\<lparr>pieceGrid := ?g'\<rparr>) ! i))"
    proof (cases "i < length ?ps")
      case False
      then have "grid_at ?g r' c' \<noteq> Some i" using own [OF rc'] by blast
      with False at [OF rc'] show ?thesis by auto
    next
      case True
      show ?thesis
        using at [OF rc'] occ [OF True] own [OF rc', of i] own [OF rc, of i] g True
        by (auto split: if_splits)
    qed
  qed
  moreover have "\<forall>r' c'. in_board r' c' \<and> (r', c') \<noteq> (r, c) \<longrightarrow>
              grid_at (grid_set (pieceGrid ?b1) r c None) r' c' = grid_at ?g r' c'"
    using at by auto
  ultimately show ?thesis using rm by auto
qed

lemma clear_row_total:
  assumes "board_inv board" "\<forall>c \<in> set cs. in_board r c" "distinct cs"
    and "\<forall>c \<in> set cs. grid_at (pieceGrid board) r c \<noteq> None"
  shows "\<exists>board'. clear_row r cs board = Some board' \<and> board_inv board' \<and>
           length (pieces board') = length (pieces board)"
  using assms
proof (induction cs arbitrary: board)
  case Nil
  then show ?case by simp
next
  case (Cons c cs)
  from Cons.prems(4) obtain p where g: "grid_at (pieceGrid board) r c = Some p" by auto
  have rc: "in_board r c" using Cons.prems(2) by simp
  from clear_cell_inv [OF Cons.prems(1) rc g]
  obtain b1 where rm: "removeTile p r c board = Some b1"
    and i1: "board_inv (b1\<lparr>pieceGrid := grid_set (pieceGrid b1) r c None\<rparr>)"
    and l1: "length (pieces b1) = length (pieces board)"
    and f1: "\<And>r' c'. in_board r' c' \<Longrightarrow> (r', c') \<noteq> (r, c) \<Longrightarrow>
              grid_at (grid_set (pieceGrid b1) r c None) r' c' = grid_at (pieceGrid board) r' c'"
    by blast
  let ?b = "b1\<lparr>pieceGrid := grid_set (pieceGrid b1) r c None\<rparr>"
  have a: "\<forall>c \<in> set cs. in_board r c" using Cons.prems(2) by simp
  have d: "distinct cs" using Cons.prems(3) by simp
  have n: "\<forall>c' \<in> set cs. grid_at (pieceGrid ?b) r c' \<noteq> None"
  proof
    fix c' assume c': "c' \<in> set cs"
    then have "c' \<noteq> c" using Cons.prems(3) by auto
    then have "grid_at (grid_set (pieceGrid b1) r c None) r c' = grid_at (pieceGrid board) r c'"
      using f1 [of r c'] a c' by simp
    then show "grid_at (pieceGrid ?b) r c' \<noteq> None"
      using Cons.prems(4) c' by simp
  qed
  from Cons.IH [OF i1 a d n]
  obtain b' where "clear_row r cs ?b = Some b'" "board_inv b'" "length (pieces b') = length (pieces ?b)"
    by blast
  then show ?case using g rm l1 by simp
qed

lemma board_inv_pieces_ok:
  assumes "board_inv board"
  shows "pieces_ok (pieces board)"
proof -
  let ?ps = "pieces board"
  from assms have inb: "\<And>i r c. i < length ?ps \<Longrightarrow> (r, c) \<in> set (occupiedCells (?ps ! i)) \<Longrightarrow> in_board r c"
    and own: "\<And>r c i. in_board r c \<Longrightarrow>
        (grid_at (pieceGrid board) r c = Some i \<longleftrightarrow> i < length ?ps \<and> (r, c) \<in> set (occupiedCells (?ps ! i)))"
    unfolding board_inv_iff by blast+
  have "set (occupiedCells (?ps ! i)) \<inter> set (occupiedCells (?ps ! j)) = {}"
    if "i < j" "j < length ?ps" for i j
  proof (rule ccontr)
    assume "set (occupiedCells (?ps ! i)) \<inter> set (occupiedCells (?ps ! j)) \<noteq> {}"
    then obtain x where x: "x \<in> set (occupiedCells (?ps ! i))" "x \<in> set (occupiedCells (?ps ! j))"
      by blast
    obtain r c where rc: "x = (r, c)" by (cases x)
    have i: "i < length ?ps" using that by simp
    have "in_board r c" using inb [OF i] x rc by blast
    from own [OF this, of i] own [OF this, of j] x rc i that show False by auto
  qed
  then have "sorted_wrt (\<lambda>p q. set (occupiedCells p) \<inter> set (occupiedCells q) = {}) ?ps"
    unfolding sorted_wrt_iff_nth_less by blast
  moreover have "\<forall>p \<in> set ?ps. \<forall>(r, c) \<in> set (occupiedCells p). in_board r c"
  proof
    fix p assume "p \<in> set ?ps"
    then obtain i where "i < length ?ps" "p = ?ps ! i"
      unfolding in_set_conv_nth by blast
    then show "\<forall>(r, c) \<in> set (occupiedCells p). in_board r c"
      using inb by blast
  qed
  ultimately show ?thesis by (simp add: pieces_ok_def)
qed

lemma pieces_ok_filter: "pieces_ok ps \<Longrightarrow> pieces_ok (filter P ps)"
  by (auto simp: pieces_ok_def sorted_wrt_filter)

lemma pieces_ok_disjoint:
  assumes "pieces_ok ps" "i < length ps" "j < length ps" "i \<noteq> j"
    "x \<in> set (occupiedCells (ps ! i))" "x \<in> set (occupiedCells (ps ! j))"
  shows False
proof -
  from assms(1) have s: "\<And>i j. i < j \<Longrightarrow> j < length ps \<Longrightarrow>
      set (occupiedCells (ps ! i)) \<inter> set (occupiedCells (ps ! j)) = {}"
    unfolding pieces_ok_def sorted_wrt_iff_nth_less by blast
  from assms(4) consider "i < j" | "j < i" by arith
  then show False
    using s [of i j] s [of j i] assms by cases blast+
qed

lemma grid_upto_all:
  "pieces_ok (pieces board) \<Longrightarrow> grid_upto (length (pieces board)) board \<Longrightarrow> board_inv board"
  unfolding board_inv_iff grid_upto_def pieces_ok_def by (auto simp: all_set_conv_all_nth)

lemma rewrite_step:
  assumes ok: "pieces_ok (pieces board)" and k: "k < length (pieces board)"
    and u: "grid_upto k board"
  shows "\<exists>g2. moveTo k (row (pieces board ! k)) (col (pieces board ! k)) (tileGrid (pieces board ! k)) board
             = Some (True, board\<lparr>pieceGrid := g2\<rparr>)
           \<and> grid_upto (Suc k) (board\<lparr>pieceGrid := g2\<rparr>)"
proof -
  let ?ps = "pieces board" and ?g = "pieceGrid board"
  let ?p = "?ps ! k"
  from u have gok: "grid_ok ?g"
    and own: "\<And>r c i. in_board r c \<Longrightarrow>
      (grid_at ?g r c = Some i \<longleftrightarrow> i < k \<and> (r, c) \<in> set (occupiedCells (?ps ! i)))"
    unfolding grid_upto_def by blast+
  from ok k have old: "\<forall>(r, c) \<in> set (occupiedCells ?p). in_board r c"
    unfolding pieces_ok_def by (metis nth_mem)
  have free: "grid_at ?g r c = None" if "(r, c) \<in> set (occupiedCells ?p)" for r c
  proof (cases "grid_at ?g r c")
    case None
    then show ?thesis .
  next
    case (Some i)
    have "in_board r c" using old that by blast
    from own [OF this, of i] Some have "i < k" "(r, c) \<in> set (occupiedCells (?ps ! i))" by blast+
    with pieces_ok_disjoint [OF ok _ k _ _ that, of i] k show ?thesis by simp
  qed
  have v: "validate k (row ?p) (col ?p) (tileGrid ?p) ?g subCells"
    unfolding validate_subCells using old free by (auto simp: set_occupiedCells)
  from moveTo_ok [OF gok k old v]
  obtain g2 where m: "moveTo k (row ?p) (col ?p) (tileGrid ?p) board =
            Some (True, board\<lparr>pieceGrid := g2,
                   pieces := ?ps[k := ?p\<lparr>row := row ?p, col := col ?p\<rparr>]\<rparr>)"
    and g2ok: "grid_ok g2"
    and g2at: "\<And>r c. in_board r c \<Longrightarrow>
                grid_at g2 r c =
                  (if (r, c) \<in> cells_at (row ?p) (col ?p) (tileGrid ?p) then Some k
                   else if (r, c) \<in> set (occupiedCells ?p) then None
                   else grid_at ?g r c)"
    by blast
  have same: "board\<lparr>pieceGrid := g2, pieces := ?ps[k := ?p\<lparr>row := row ?p, col := col ?p\<rparr>]\<rparr>
              = board\<lparr>pieceGrid := g2\<rparr>"
    by simp
  have "grid_upto (Suc k) (board\<lparr>pieceGrid := g2\<rparr>)"
    unfolding grid_upto_def
  proof (intro conjI allI impI)
    show "grid_ok (pieceGrid (board\<lparr>pieceGrid := g2\<rparr>))" using g2ok by simp
  next
    fix r c i assume rc: "in_board r c"
    show "grid_at (pieceGrid (board\<lparr>pieceGrid := g2\<rparr>)) r c = Some i \<longleftrightarrow>
          i < Suc k \<and> (r, c) \<in> set (occupiedCells (pieces (board\<lparr>pieceGrid := g2\<rparr>) ! i))"
    proof (cases "(r, c) \<in> set (occupiedCells ?p)")
      case True
      then have "grid_at g2 r c = Some k"
        using g2at [OF rc] by (simp add: set_occupiedCells)
      moreover have "(r, c) \<notin> set (occupiedCells (?ps ! i))" if "i < k"
        using pieces_ok_disjoint [OF ok _ k _ _ True, of i] that k by auto
      ultimately show ?thesis using True by (auto simp: less_Suc_eq)
    next
      case False
      then have "grid_at g2 r c = grid_at ?g r c"
        using g2at [OF rc] by (simp add: set_occupiedCells)
      then show ?thesis using own [OF rc, of i] False by (auto simp: less_Suc_eq)
    qed
  qed
  with m same show ?thesis by auto
qed

lemma rewrite_grid_total:
  assumes "pieces_ok (pieces board)" "k \<le> length (pieces board)" "grid_upto k board"
  shows "\<exists>g'. rewrite_grid [k..<length (pieces board)] board = Some (board\<lparr>pieceGrid := g'\<rparr>)
           \<and> board_inv (board\<lparr>pieceGrid := g'\<rparr>)"
  using assms
proof (induction "length (pieces board) - k" arbitrary: k board)
  case 0
  then have "k = length (pieces board)" by simp
  with 0 have "board_inv board" using grid_upto_all by blast
  moreover have "board\<lparr>pieceGrid := pieceGrid board\<rparr> = board" by simp
  ultimately show ?case using \<open>k = length (pieces board)\<close>
    by (intro exI [of _ "pieceGrid board"]) simp
next
  case (Suc n)
  then have k: "k < length (pieces board)" by simp
  from rewrite_step [OF Suc.prems(1) k Suc.prems(3)]
  obtain g2 where m: "moveTo k (row (pieces board ! k)) (col (pieces board ! k)) (tileGrid (pieces board ! k)) board
             = Some (True, board\<lparr>pieceGrid := g2\<rparr>)"
    and u: "grid_upto (Suc k) (board\<lparr>pieceGrid := g2\<rparr>)"
    by blast
  let ?b = "board\<lparr>pieceGrid := g2\<rparr>"
  have a: "n = length (pieces ?b) - Suc k" using Suc.hyps(2) by simp
  have b: "pieces_ok (pieces ?b)" using Suc.prems(1) by simp
  have c: "Suc k \<le> length (pieces ?b)" using k by simp
  from Suc.hyps(1) [OF a b c u]
  obtain g' where "rewrite_grid [Suc k..<length (pieces ?b)] ?b = Some (?b\<lparr>pieceGrid := g'\<rparr>)"
    "board_inv (?b\<lparr>pieceGrid := g'\<rparr>)" by blast
  then show ?case
    using k m by (intro exI [of _ g']) (simp add: upt_conv_Cons)
qed

lemma grid_upto_empty: "grid_upto 0 (board\<lparr>pieceGrid := empty_grid\<rparr>)"
  by (simp add: grid_upto_def grid_ok_empty grid_at_empty)

lemma collapse_row_total:
  assumes inv: "board_inv board" and r: "0 \<le> r" "r < NUM_ROWS"
  shows "\<exists>board'. collapse_row r board = Some board' \<and> board_inv board' \<and>
           length (pieces board') \<le> length (pieces board)"
proof (cases "list_ex (\<lambda>c. grid_at (pieceGrid board) r c = None) [0..NUM_COLS - 1]")
  case True
  then have "collapse_row r board = Some board"
    using r by (simp add: collapse_row_def isRowFull_def)
  with inv show ?thesis by simp
next
  case False
  let ?b0 = "board\<lparr>rowsCompleted := rowsCompleted board + 1\<rparr>"
  have f: "isRowFull r board = Some (True, ?b0)"
    using False r by (simp add: isRowFull_def)
  have i0: "board_inv ?b0" using inv by (simp add: board_inv_cong [of ?b0 board])
  have c1: "\<forall>c \<in> set [0..NUM_COLS - 1]. in_board r c"
    using r by (auto simp: in_board_def)
  have c2: "distinct [0..NUM_COLS - 1]" by simp
  have c3: "\<forall>c \<in> set [0..NUM_COLS - 1]. grid_at (pieceGrid ?b0) r c \<noteq> None"
    using False by (auto simp: list_ex_iff)
  from clear_row_total [OF i0 c1 c2 c3]
  obtain b1 where cl: "clear_row r [0..NUM_COLS - 1] ?b0 = Some b1" and i1: "board_inv b1"
    and l1: "length (pieces b1) = length (pieces ?b0)" by blast
  let ?ps = "filter (\<lambda>p. \<not> has_no_tiles p) (pieces b1)"
  let ?b3 = "b1\<lparr>pieces := ?ps, pieceGrid := empty_grid\<rparr>"
  have ok: "pieces_ok (pieces ?b3)"
    using board_inv_pieces_ok [OF i1] by (simp add: pieces_ok_filter)
  have u: "grid_upto 0 ?b3"
    using grid_upto_empty [of "b1\<lparr>pieces := ?ps\<rparr>"] by simp
  from rewrite_grid_total [OF ok _ u]
  obtain g' where rw: "rewrite_grid [0..<length (pieces ?b3)] ?b3 = Some (?b3\<lparr>pieceGrid := g'\<rparr>)"
    and i4: "board_inv (?b3\<lparr>pieceGrid := g'\<rparr>)" by auto
  let ?b4 = "?b3\<lparr>pieceGrid := g'\<rparr>"
  have s1: "\<forall>i \<in> set [0..<length (pieces ?b4)]. i < length (pieces ?b4)" by simp
  have s2: "\<forall>p \<in> set (pieces ?b4). \<not> has_no_tiles p" by simp
  from settle_total [OF i4 s1 s2]
  obtain b5 where st: "settle [0..<length (pieces ?b4)] ?b4 = Some b5" and i5: "board_inv b5"
    and s5: "same_shapes ?b4 b5" by blast
  have "collapse_row r board = Some b5"
    using f cl rw st by (simp add: collapse_row_def Let_def)
  moreover have "length (pieces b5) \<le> length (pieces board)"
    using same_shapes_length [OF s5] l1
          length_filter_le [of "\<lambda>p. \<not> has_no_tiles p" "pieces b1"] by simp
  ultimately show ?thesis using i5 by blast
qed

lemma collapse_rows_total:
  assumes "board_inv board" "\<forall>r \<in> set rs. 0 \<le> r \<and> r < NUM_ROWS"
  shows "\<exists>board'. collapse_rows rs board = Some board' \<and> board_inv board' \<and>
           length (pieces board') \<le> length (pieces board)"
  using assms
proof (induction rs arbitrary: board)
  case Nil
  then show ?case by simp
next
  case (Cons r rs)
  from collapse_row_total [OF Cons.prems(1), of r] Cons.prems(2)
  obtain b1 where c: "collapse_row r board = Some b1" and i: "board_inv b1"
    and l: "length (pieces b1) \<le> length (pieces board)" by auto
  from Cons.IH [OF i] Cons.prems(2)
  obtain b2 where "collapse_rows rs b1 = Some b2" "board_inv b2"
    "length (pieces b2) \<le> length (pieces b1)" by auto
  with c l show ?case by auto
qed

lemma collapseFullRows_total:
  assumes "board_inv board"
  shows "\<exists>board'. collapseFullRows board = Some board' \<and> board_inv board' \<and>
           length (pieces board') \<le> length (pieces board)"
  unfolding collapseFullRows_def
  by (rule collapse_rows_total [OF assms]) auto

lemma spawn_inv:
  assumes inv: "board_inv board"
    and v: "validate (length (pieces board)) (row p) (col p) (tileGrid p) (pieceGrid board) subCells"
    and g2ok: "grid_ok g2"
    and g2at: "\<forall>r c. in_board r c \<longrightarrow>
                grid_at g2 r c =
                  (if (r, c) \<in> set (occupiedCells p) then Some (length (pieces board))
                   else grid_at (pieceGrid board) r c)"
    and b': "pieceGrid board' = g2" "pieces board' = pieces board @ [p]"
  shows "board_inv board'"
proof -
  let ?g = "pieceGrid board" and ?ps = "pieces board"
  let ?n = "length ?ps"
  from inv have inb: "\<And>i r c. i < ?n \<Longrightarrow> (r, c) \<in> set (occupiedCells (?ps ! i)) \<Longrightarrow> in_board r c"
    and own: "\<And>r c i. in_board r c \<Longrightarrow>
        (grid_at ?g r c = Some i \<longleftrightarrow> i < ?n \<and> (r, c) \<in> set (occupiedCells (?ps ! i)))"
    unfolding board_inv_iff by blast+
  from v have new: "\<And>r c. (r, c) \<in> set (occupiedCells p) \<Longrightarrow>
      in_board r c \<and> (grid_at ?g r c = None \<or> grid_at ?g r c = Some ?n)"
    unfolding validate_subCells set_occupiedCells by blast
  have free: "\<And>r c i. (r, c) \<in> set (occupiedCells p) \<Longrightarrow> grid_at ?g r c \<noteq> Some i"
    using new own by (metis less_irrefl option.distinct(1) option.inject)
  show ?thesis
    unfolding board_inv_iff b'
  proof (intro conjI allI impI)
    show "grid_ok g2" by (rule g2ok)
  next
    fix i assume "i < length (?ps @ [p])"
    then show "\<forall>(r, c) \<in> set (occupiedCells ((?ps @ [p]) ! i)). in_board r c"
      using inb [of i] new by (auto simp: nth_append less_Suc_eq)
  next
    fix r c i assume rc: "in_board r c"
    show "grid_at g2 r c = Some i \<longleftrightarrow>
          i < length (?ps @ [p]) \<and> (r, c) \<in> set (occupiedCells ((?ps @ [p]) ! i))"
    proof (cases "(r, c) \<in> set (occupiedCells p)")
      case True
      then have "grid_at g2 r c = Some ?n" using g2at rc by simp
      moreover have "(r, c) \<notin> set (occupiedCells (?ps ! i))" if "i < ?n"
        using own [OF rc, of i] free [OF True, of i] that by blast
      ultimately show ?thesis using True by (auto simp: nth_append less_Suc_eq)
    next
      case False
      then have "grid_at g2 r c = grid_at ?g r c" using g2at rc by simp
      then show ?thesis using own [OF rc, of i] False by (auto simp: nth_append less_Suc_eq)
    qed
  qed
qed

lemma fresh_piece_on_board:
  assumes "row p = 0" "col p = 0" "(r, c) \<in> set (occupiedCells p)"
  shows "in_board r c"
  using assms by (auto simp: set_occupiedCells cells_at_iff in_board_def NUM_ROWS_def NUM_COLS_def)

text \<open>The spawn at the end of \<open>update\<close>, from a board that satisfies the invariant.\<close>

lemma spawn_step:
  assumes inv: "board_inv b2" and p: "row p = 0" "col p = 0"
    and b3: "pieceGrid b3 = pieceGrid b2" "pieces b3 = pieces b2 @ [p]"
  shows "if \<forall>(r, c) \<in> set (occupiedCells p). grid_at (pieceGrid b2) r c = None
         then \<exists>g2. moveTo (length (pieces b2)) (row p) (col p) (tileGrid p) b3 =
                      Some (True, b3\<lparr>pieceGrid := g2\<rparr>)
                  \<and> board_inv (b3\<lparr>pieceGrid := g2\<rparr>)
         else moveTo (length (pieces b2)) (row p) (col p) (tileGrid p) b3 = Some (False, b3)"
proof -
  let ?n = "length (pieces b2)"
  let ?legal = "\<forall>(r, c) \<in> set (occupiedCells p). grid_at (pieceGrid b2) r c = None"
  from inv have gok: "grid_ok (pieceGrid b2)"
    and own: "\<And>r c i. in_board r c \<Longrightarrow>
        (grid_at (pieceGrid b2) r c = Some i \<longleftrightarrow> i < ?n \<and> (r, c) \<in> set (occupiedCells (pieces b2 ! i)))"
    unfolding board_inv_iff by blast+
  have n: "?n < length (pieces b3)" and pn: "pieces b3 ! ?n = p" using b3 by simp_all
  have onb: "\<forall>(r, c) \<in> set (occupiedCells p). in_board r c"
    using fresh_piece_on_board [OF p] by blast
  have leg: "?legal \<longleftrightarrow> validate ?n (row p) (col p) (tileGrid p) (pieceGrid b3) subCells"
    unfolding validate_subCells b3 set_occupiedCells [symmetric]
    using onb own by (auto split: prod.splits) 
  show ?thesis
  proof (cases ?legal)
    case False
    with leg have "\<not> validate ?n (row p) (col p) (tileGrid p) (pieceGrid b3) subCells" by blast
    from moveTo_fail [OF n this] False show ?thesis by simp
  next
    case True
    with leg have v: "validate ?n (row p) (col p) (tileGrid p) (pieceGrid b3) subCells" by blast
    have gok3: "grid_ok (pieceGrid b3)" using gok b3 by simp
    have old: "\<forall>(r, c) \<in> set (occupiedCells (pieces b3 ! ?n)). in_board r c"
      using onb pn by simp
    from moveTo_ok [OF gok3 n old v]
    obtain g2 where m: "moveTo ?n (row p) (col p) (tileGrid p) b3 =
            Some (True, b3\<lparr>pieceGrid := g2,
                   pieces := (pieces b3)[?n := (pieces b3 ! ?n)\<lparr>row := row p, col := col p\<rparr>]\<rparr>)"
      and g2ok: "grid_ok g2"
      and g2at: "\<And>r c. in_board r c \<Longrightarrow>
                grid_at g2 r c =
                  (if (r, c) \<in> cells_at (row p) (col p) (tileGrid p) then Some ?n
                   else if (r, c) \<in> set (occupiedCells (pieces b3 ! ?n)) then None
                   else grid_at (pieceGrid b3) r c)"
      by blast
    have "(pieces b3)[?n := p] = pieces b3"
      using pn list_update_id by metis
    then have same: "b3\<lparr>pieceGrid := g2,
                   pieces := (pieces b3)[?n := (pieces b3 ! ?n)\<lparr>row := row p, col := col p\<rparr>]\<rparr>
                = b3\<lparr>pieceGrid := g2\<rparr>"
      using pn by simp
    have at: "\<forall>r c. in_board r c \<longrightarrow>
                grid_at g2 r c =
                  (if (r, c) \<in> set (occupiedCells p) then Some ?n else grid_at (pieceGrid b2) r c)"
      using g2at pn b3 by (simp add: set_occupiedCells)
    have v2: "validate ?n (row p) (col p) (tileGrid p) (pieceGrid b2) subCells"
      using v b3 by simp
    have "board_inv (b3\<lparr>pieceGrid := g2\<rparr>)"
      by (rule spawn_inv [OF inv v2 g2ok at]) (simp_all add: b3)
    with m same True show ?thesis by auto
  qed
qed

lemma Piece_ctor_anchor:
  "row (fst (Piece_ctor rd ci)) = 0" "col (fst (Piece_ctor rd ci)) = 0"
  "tileGrid (fst (Piece_ctor rd ci)) = DEFAULT_PIECES ! (rd mod NUM_DEFAULT_PIECES)"
  by (simp_all add: Piece_ctor_def)

lemma update_spawn:
  assumes inv: "board_inv board" and a: "activePiece board = Some a"
    and cap: "length (pieces board) < nat (NUM_ROWS * NUM_COLS)"
    and mv: "move direction a board = Some (True, board)"
  shows "\<exists>board2 board' legal.
     legal = (\<forall>(r, c) \<in> set (occupiedCells (fst (Piece_ctor rd (colorIndex board2)))).
               grid_at (pieceGrid board2) r c = None) \<and>
     collapseFullRows board = Some board2 \<and>
     update rd direction board = Some (legal, board') \<and>
     board_inv board' \<and>
     (legal \<longrightarrow> pieces board' = pieces board2 @ [fst (Piece_ctor rd (colorIndex board2))]
            \<and> activePiece board' = Some (length (pieces board2))) \<and>
     (\<not> legal \<longrightarrow> pieces board' = pieces board2 \<and> pieceGrid board' = pieceGrid board2)"
proof -
  from collapseFullRows_total [OF inv]
  obtain b2 where c: "collapseFullRows board = Some b2" and i2: "board_inv b2"
    and l2: "length (pieces b2) \<le> length (pieces board)" by blast
  let ?p = "fst (Piece_ctor rd (colorIndex b2))" and ?ci = "snd (Piece_ctor rd (colorIndex b2))"
  let ?n = "length (pieces b2)"
  let ?b3 = "b2\<lparr>pieces := pieces b2 @ [?p], activePiece := Some ?n, colorIndex := ?ci\<rparr>"
  let ?legal = "\<forall>(r, c) \<in> set (occupiedCells ?p). grid_at (pieceGrid b2) r c = None"
  have up: "update rd direction board =
     (case moveTo ?n (row ?p) (col ?p) (tileGrid ?p) ?b3 of
        None \<Rightarrow> None
      | Some (ok, b4) \<Rightarrow> if \<not> ok then Some (False, b4\<lparr>pieces := butlast (pieces b4)\<rparr>)
                         else Some (True, b4))"
  proof -
    have d: "direction \<noteq> UP" using mv a
      by (auto simp: move_def Let_def split: if_splits option.splits)
    have "\<not> nat (NUM_ROWS * NUM_COLS) \<le> ?n" using l2 cap by simp
    then show ?thesis
      using a mv c d by (simp add: update_def Let_def split_def)
  qed
  note sp = spawn_step [OF i2 Piece_ctor_anchor(1,2), of ?b3 rd "colorIndex b2"]
  show ?thesis
  proof (cases ?legal)
    case True
    with sp obtain g2 where m: "moveTo ?n (row ?p) (col ?p) (tileGrid ?p) ?b3 = Some (True, ?b3\<lparr>pieceGrid := g2\<rparr>)"
      and i: "board_inv (?b3\<lparr>pieceGrid := g2\<rparr>)" by auto
    have "update rd direction board = Some (True, ?b3\<lparr>pieceGrid := g2\<rparr>)"
      using up m by simp
    with True c i show ?thesis
      by (intro exI [of _ b2] exI [of _ "?b3\<lparr>pieceGrid := g2\<rparr>"] exI [of _ True]) simp
  next
    case False
    with sp have m: "moveTo ?n (row ?p) (col ?p) (tileGrid ?p) ?b3 = Some (False, ?b3)" by auto
    have u: "update rd direction board = Some (False, ?b3\<lparr>pieces := butlast (pieces ?b3)\<rparr>)"
      using up m by simp
    have "board_inv (?b3\<lparr>pieces := butlast (pieces ?b3)\<rparr>) = board_inv b2"
      by (rule board_inv_cong) simp_all
    with i2 have "board_inv (?b3\<lparr>pieces := butlast (pieces ?b3)\<rparr>)" by blast
    with False c u show ?thesis
      by (intro exI [of _ b2] exI [of _ "?b3\<lparr>pieces := butlast (pieces ?b3)\<rparr>"] exI [of _ False]) simp
  qed
qed

lemma rotate_legal:
  assumes inv: "board_inv board" and t: "this < length (pieces board)"
    and l: "\<forall>(r, c) \<in> set (occupiedCells ((pieces board ! this)\<lparr>tileGrid := rotated (tileGrid (pieces board ! this))\<rparr>)).
              in_board r c \<and>
              (grid_at (pieceGrid board) r c = None \<or> grid_at (pieceGrid board) r c = Some this)"
  shows "\<exists>g2. rotate_piece this board =
                  Some (board\<lparr>pieceGrid := g2,
                         pieces := (pieces board)[this := (pieces board ! this)\<lparr>tileGrid := rotated (tileGrid (pieces board ! this))\<rparr>]\<rparr>)
                \<and> board_inv (board\<lparr>pieceGrid := g2,
                         pieces := (pieces board)[this := (pieces board ! this)\<lparr>tileGrid := rotated (tileGrid (pieces board ! this))\<rparr>]\<rparr>)"
proof -
  let ?p = "pieces board ! this"
  let ?new = "rotated (tileGrid ?p)"
  let ?q = "?p\<lparr>tileGrid := ?new\<rparr>"
  from l have v: "validate this (row ?p) (col ?p) ?new (pieceGrid board) subCells"
    by (simp add: validate_subCells set_occupiedCells)
  from inv have g: "grid_ok (pieceGrid board)"
    and old: "\<forall>(r, c) \<in> set (occupiedCells ?p). in_board r c"
    using t unfolding board_inv_iff by blast+
  from moveTo_ok [OF g t old v]
  obtain g2 where m: "moveTo this (row ?p) (col ?p) ?new board =
          Some (True, board\<lparr>pieceGrid := g2,
                 pieces := (pieces board)[this := ?p\<lparr>row := row ?p, col := col ?p\<rparr>]\<rparr>)"
    and g2ok: "grid_ok g2"
    and g2at: "\<forall>r c. in_board r c \<longrightarrow>
              grid_at g2 r c =
                (if (r, c) \<in> cells_at (row ?p) (col ?p) ?new then Some this
                 else if (r, c) \<in> set (occupiedCells ?p) then None
                 else grid_at (pieceGrid board) r c)"
    by blast
  have r: "rotate_piece this board = Some (board\<lparr>pieceGrid := g2, pieces := (pieces board)[this := ?q]\<rparr>)"
    using t m by (simp add: rotate_piece_def Let_def)
  have "board_inv (board\<lparr>pieceGrid := g2, pieces := (pieces board)[this := ?q]\<rparr>)"
    by (rule place_inv [OF inv t v g2ok g2at]) simp_all
  with r show ?thesis by blast
qed

lemma rotate_illegal:
  assumes t: "this < length (pieces board)"
    and l: "\<not> (\<forall>(r, c) \<in> set (occupiedCells ((pieces board ! this)\<lparr>tileGrid := rotated (tileGrid (pieces board ! this))\<rparr>)).
              in_board r c \<and>
              (grid_at (pieceGrid board) r c = None \<or> grid_at (pieceGrid board) r c = Some this))"
  shows "rotate_piece this board = Some board"
proof -
  let ?p = "pieces board ! this"
  from l have "\<not> validate this (row ?p) (col ?p) (rotated (tileGrid ?p)) (pieceGrid board) subCells"
    by (simp add: validate_subCells set_occupiedCells)
  from moveTo_fail [OF t this] show ?thesis
    using t by (simp add: rotate_piece_def Let_def)
qed

text \<open>Every call of \<open>update\<close> on a board that satisfies the invariant returns, and the
  invariant holds again; unless the game is over, the active piece is a live one.\<close>

lemma update_inv:
  assumes inv: "board_inv board" and a: "activePiece board = Some a" "a < length (pieces board)"
    and cap: "length (pieces board) < nat (NUM_ROWS * NUM_COLS)"
  shows "\<exists>ok board'. update rd direction board = Some (ok, board') \<and> board_inv board' \<and>
           (ok \<longrightarrow> (\<exists>a'. activePiece board' = Some a' \<and> a' < length (pieces board')))"
proof (cases "direction = UP")
  case True
  have "\<exists>b. rotate_piece a board = Some b \<and> board_inv b \<and> activePiece b = Some a \<and>
             length (pieces b) = length (pieces board)"
    using rotate_legal [OF inv a(2)] rotate_illegal [OF a(2)] inv a
    by (cases "\<forall>(r, c) \<in> set (occupiedCells ((pieces board ! a)\<lparr>tileGrid := rotated (tileGrid (pieces board ! a))\<rparr>)).
              in_board r c \<and>
              (grid_at (pieceGrid board) r c = None \<or> grid_at (pieceGrid board) r c = Some a)")
       fastforce+
  then obtain b where "rotate_piece a board = Some b" "board_inv b" "activePiece b = Some a"
    "length (pieces b) = length (pieces board)" by blast
  then show ?thesis using True a by (auto simp: update_def)
next
  case False
  from move_inv [OF inv a(2), of direction]
  obtain stop b1 where mv: "move direction a board = Some (stop, b1)"
    and i1: "board_inv b1" and s1: "same_shapes board b1" and st: "stop \<longrightarrow> b1 = board"
    by blast
  show ?thesis
  proof (cases stop)
    case False
    have "update rd direction board = Some (True, b1)"
      using mv False \<open>direction \<noteq> UP\<close> a by (simp add: update_def)
    moreover have "activePiece b1 = Some a" "a < length (pieces b1)"
      using s1 a same_shapes_length [OF s1] by (simp_all add: same_shapes_def)
    ultimately show ?thesis using i1 by blast
  next
    case True
    with st mv have m: "move direction a board = Some (True, board)" by simp
    from update_spawn [OF inv a(1) cap m, of rd]
    obtain b2 b' legal where
      "legal = (\<forall>(r, c) \<in> set (occupiedCells (fst (Piece_ctor rd (colorIndex b2)))).
               grid_at (pieceGrid b2) r c = None)"
      "collapseFullRows board = Some b2"
      and u: "update rd direction board = Some (legal, b')"
      and i': "board_inv b'"
      and l: "legal \<longrightarrow> pieces b' = pieces b2 @ [fst (Piece_ctor rd (colorIndex b2))]
            \<and> activePiece b' = Some (length (pieces b2))"
      and "\<not> legal \<longrightarrow> pieces b' = pieces b2 \<and> pieceGrid b' = pieceGrid b2"
      by blast
    from l have "legal \<longrightarrow> (\<exists>a'. activePiece b' = Some a' \<and> a' < length (pieces b'))"
      by simp
    with u i' show ?thesis by blast
  qed
qed

lemma rotate_commit:
  assumes g: "grid_ok (pieceGrid board)" and t: "this < length (pieces board)"
    and old: "\<forall>(r, c) \<in> set (occupiedCells (pieces board ! this)). in_board r c"
    and l: "\<forall>(r, c) \<in> set (occupiedCells ((pieces board ! this)\<lparr>tileGrid := rotated (tileGrid (pieces board ! this))\<rparr>)).
              in_board r c \<and>
              (grid_at (pieceGrid board) r c = None \<or> grid_at (pieceGrid board) r c = Some this)"
  shows "\<exists>g2. rotate_piece this board =
                  Some (board\<lparr>pieceGrid := g2,
                         pieces := (pieces board)[this := (pieces board ! this)\<lparr>tileGrid := rotated (tileGrid (pieces board ! this))\<rparr>]\<rparr>)
                \<and> grid_ok g2
                \<and> (\<forall>r c. in_board r c \<longrightarrow>
                      grid_at g2 r c =
                        (if (r, c) \<in> set (occupiedCells ((pieces board ! this)\<lparr>tileGrid := rotated (tileGrid (pieces board ! this))\<rparr>))
                         then Some this
                         else if (r, c) \<in> set (occupiedCells (pieces board ! this)) then None
                         else grid_at (pieceGrid board) r c))
                \<and> (board_inv board \<longrightarrow>
                      board_inv (board\<lparr>pieceGrid := g2,
                         pieces := (pieces board)[this := (pieces board ! this)\<lparr>tileGrid := rotated (tileGrid (pieces board ! this))\<rparr>]\<rparr>))"
proof -
  let ?p = "pieces board ! this"
  let ?new = "rotated (tileGrid ?p)"
  let ?q = "?p\<lparr>tileGrid := ?new\<rparr>"
  have oq: "set (occupiedCells ?q) = cells_at (row ?p) (col ?p) ?new"
    by (simp add: set_occupiedCells)
  from l have v: "validate this (row ?p) (col ?p) ?new (pieceGrid board) subCells"
    by (simp add: validate_subCells set_occupiedCells)
  from moveTo_ok [OF g t old v]
  obtain g2 where m: "moveTo this (row ?p) (col ?p) ?new board =
          Some (True, board\<lparr>pieceGrid := g2,
                 pieces := (pieces board)[this := ?p\<lparr>row := row ?p, col := col ?p\<rparr>]\<rparr>)"
    and g2ok: "grid_ok g2"
    and g2at: "\<forall>r c. in_board r c \<longrightarrow>
              grid_at g2 r c =
                (if (r, c) \<in> cells_at (row ?p) (col ?p) ?new then Some this
                 else if (r, c) \<in> set (occupiedCells ?p) then None
                 else grid_at (pieceGrid board) r c)"
    by blast
  have r: "rotate_piece this board = Some (board\<lparr>pieceGrid := g2, pieces := (pieces board)[this := ?q]\<rparr>)"
    using t m by (simp add: rotate_piece_def Let_def)
  have i: "board_inv (board\<lparr>pieceGrid := g2, pieces := (pieces board)[this := ?q]\<rparr>)"
    if inv: "board_inv board"
    by (rule place_inv [OF inv t v g2ok g2at]) simp_all
  from r g2ok g2at i show ?thesis unfolding oq by blast
qed

section \<open>The claims\<close>

text \<open>
  C1 (grid/piece consistency after every update from the initial board). The constructor
  puts the first piece into the collection and never writes it into the grid; the spawn
  path of \<^verbatim>\<open>Board::update\<close> does (\<^verbatim>\<open>emplace_back\<close>, then \<^verbatim>\<open>moveTo\<close>). A first command LEFT
  fails at the wall and changes nothing, so after that call of \<open>update\<close> the piece's four
  cells are occupied while the grid is all null: the invariant does not hold.
\<close>

theorem initial_piece_not_on_grid:
  "update 0 LEFT (Board_ctor 0) = Some (True, Board_ctor 0) \<and> \<not> consistent (Board_ctor 0)"
  by code_simp

text \<open>
  C2 (\<^verbatim>\<open>Piece::moveTo\<close> is atomic on failure). If some set sub-cell of the candidate
  footprint lands outside the board or on a cell owned by a different piece, \<open>moveTo\<close>
  returns false and the whole board is as before. If every set sub-cell lands on the board
  on a cell that is null or owned by the piece itself, \<open>moveTo\<close> does not return false,
  and it returns true when the piece's old cells lie on the board.
\<close>

theorem moveTo_atomic_on_failure:
  assumes "this < length (pieces board)"
  shows "((\<exists>(subRow, subCol) \<in> set subCells. tile newTileGrid subRow subCol \<and>
            (\<not> in_board (newRow + subRow) (newCol + subCol) \<or>
             (\<exists>other. other \<noteq> this \<and>
                grid_at (pieceGrid board) (newRow + subRow) (newCol + subCol) = Some other)))
          \<longrightarrow> moveTo this newRow newCol newTileGrid board = Some (False, board))
       \<and> ((\<forall>(subRow, subCol) \<in> set subCells. tile newTileGrid subRow subCol \<longrightarrow>
              in_board (newRow + subRow) (newCol + subCol) \<and>
              (grid_at (pieceGrid board) (newRow + subRow) (newCol + subCol) = None \<or>
               grid_at (pieceGrid board) (newRow + subRow) (newCol + subCol) = Some this))
          \<longrightarrow> (\<forall>board'. moveTo this newRow newCol newTileGrid board \<noteq> Some (False, board')) \<and>
              (list_all (\<lambda>(r, c). in_board r c) (occupiedCells (pieces board ! this))
                 \<longrightarrow> (\<exists>board'. moveTo this newRow newCol newTileGrid board = Some (True, board'))))"
proof (intro conjI impI)
  assume "\<exists>(subRow, subCol) \<in> set subCells. tile newTileGrid subRow subCol \<and>
            (\<not> in_board (newRow + subRow) (newCol + subCol) \<or>
             (\<exists>other. other \<noteq> this \<and>
                grid_at (pieceGrid board) (newRow + subRow) (newCol + subCol) = Some other))"
  then have "\<not> validate this newRow newCol newTileGrid (pieceGrid board) subCells"
    unfolding validate_iff by fastforce
  with assms show "moveTo this newRow newCol newTileGrid board = Some (False, board)"
    by (rule moveTo_fail)
next
  assume "\<forall>(subRow, subCol) \<in> set subCells. tile newTileGrid subRow subCol \<longrightarrow>
              in_board (newRow + subRow) (newCol + subCol) \<and>
              (grid_at (pieceGrid board) (newRow + subRow) (newCol + subCol) = None \<or>
               grid_at (pieceGrid board) (newRow + subRow) (newCol + subCol) = Some this)"
  then have v: "validate this newRow newCol newTileGrid (pieceGrid board) subCells"
    unfolding validate_iff .
  then show "\<forall>board'. moveTo this newRow newCol newTileGrid board \<noteq> Some (False, board')"
    using assms by (auto simp: moveTo_def Let_def split: option.splits)
  show "\<exists>board'. moveTo this newRow newCol newTileGrid board = Some (True, board')"
    if old: "list_all (\<lambda>(r, c). in_board r c) (occupiedCells (pieces board ! this))"
  proof -
    let ?p = "pieces board ! this"
    have "write_cells None (row ?p) (col ?p) (tileGrid ?p) subCells (pieceGrid board) \<noteq> None"
      unfolding write_cells_None_iff
      using old cells_at_add [of _ _ "tileGrid ?p" "row ?p" "col ?p"]
      by (auto simp: list_all_iff set_occupiedCells)
    then obtain g1 where g1: "write_cells None (row ?p) (col ?p) (tileGrid ?p) subCells (pieceGrid board) = Some g1"
      by auto
    have "write_cells (Some this) newRow newCol newTileGrid subCells g1 \<noteq> None"
      unfolding write_cells_None_iff using v unfolding validate_iff by blast
    then obtain g2 where "write_cells (Some this) newRow newCol newTileGrid subCells g1 = Some g2"
      by auto
    with g1 v assms show ?thesis by (simp add: moveTo_def Let_def)
  qed
qed

theorem moveTo_atomic_on_failure_witness:
  "moveTo 4 19 9 (DEFAULT_PIECES ! 0) floating_board = Some (False, floating_board)
   \<and> moveTo 0 18 0 (DEFAULT_PIECES ! 0) floating_board = Some (False, floating_board)
   \<and> (\<exists>board'. moveTo 1 18 1 (DEFAULT_PIECES ! 0) floating_board = Some (True, board'))"
proof -
  have l: "0 < length (pieces floating_board)" "4 < length (pieces floating_board)"
          "1 < length (pieces floating_board)"
    by code_simp+
  have a: "\<exists>(subRow, subCol) \<in> set subCells. tile (DEFAULT_PIECES ! 0) subRow subCol \<and>
            (\<not> in_board (19 + subRow) (9 + subCol) \<or>
             (\<exists>other. other \<noteq> 4 \<and>
                grid_at (pieceGrid floating_board) (19 + subRow) (9 + subCol) = Some other))"
  proof (rule bexI [of _ "(0, 3)"])
    show "(0, 3) \<in> set subCells" by (simp add: set_subCells)
    show "case (0, 3) of (subRow, subCol) \<Rightarrow> tile (DEFAULT_PIECES ! 0) subRow subCol \<and>
            (\<not> in_board (19 + subRow) (9 + subCol) \<or>
             (\<exists>other. other \<noteq> 4 \<and>
                grid_at (pieceGrid floating_board) (19 + subRow) (9 + subCol) = Some other))"
      by (simp add: in_board_def NUM_COLS_def tile_def DEFAULT_PIECES_def)
  qed
  have g: "grid_at (pieceGrid floating_board) 18 0 = Some 1" by code_simp
  have b: "\<exists>(subRow, subCol) \<in> set subCells. tile (DEFAULT_PIECES ! 0) subRow subCol \<and>
            (\<not> in_board (18 + subRow) (0 + subCol) \<or>
             (\<exists>other. other \<noteq> 0 \<and>
                grid_at (pieceGrid floating_board) (18 + subRow) (0 + subCol) = Some other))"
  proof (rule bexI [of _ "(0, 0)"])
    show "(0, 0) \<in> set subCells" by (simp add: set_subCells)
    show "case (0, 0) of (subRow, subCol) \<Rightarrow> tile (DEFAULT_PIECES ! 0) subRow subCol \<and>
            (\<not> in_board (18 + subRow) (0 + subCol) \<or>
             (\<exists>other. other \<noteq> 0 \<and>
                grid_at (pieceGrid floating_board) (18 + subRow) (0 + subCol) = Some other))"
      using g by (simp add: tile_def DEFAULT_PIECES_def)
  qed
  have c: "\<forall>(subRow, subCol) \<in> set subCells. tile (DEFAULT_PIECES ! 0) subRow subCol \<longrightarrow>
              in_board (18 + subRow) (1 + subCol) \<and>
              (grid_at (pieceGrid floating_board) (18 + subRow) (1 + subCol) = None \<or>
               grid_at (pieceGrid floating_board) (18 + subRow) (1 + subCol) = Some 1)"
    by code_simp
  have d: "list_all (\<lambda>(r, c). in_board r c) (occupiedCells (pieces floating_board ! 1))"
    by code_simp
  from moveTo_atomic_on_failure [OF l(2), of "DEFAULT_PIECES ! 0" 19 9] a
  have 1: "moveTo 4 19 9 (DEFAULT_PIECES ! 0) floating_board = Some (False, floating_board)"
    by blast
  from moveTo_atomic_on_failure [OF l(1), of "DEFAULT_PIECES ! 0" 18 0] b
  have 2: "moveTo 0 18 0 (DEFAULT_PIECES ! 0) floating_board = Some (False, floating_board)"
    by blast
  from moveTo_atomic_on_failure [OF l(3), of "DEFAULT_PIECES ! 0" 18 1] c d
  have 3: "\<exists>board'. moveTo 1 18 1 (DEFAULT_PIECES ! 0) floating_board = Some (True, board')"
    by blast
  from 1 2 3 show ?thesis by blast
qed

text \<open>
  C3 (the return value of \<^verbatim>\<open>Piece::move\<close>), as amended: \<open>move\<close> returns true exactly when the
  direction is DOWN and the relocation one row down failed; for LEFT, RIGHT and UP it
  returns false whether or not the relocation by one cell succeeded.
\<close>

theorem move_return_value:
  assumes "this < length (pieces board)"
  shows "move DOWN this board =
           map_option (\<lambda>(ok, board'). (\<not> ok, board'))
             (moveTo this (row (pieces board ! this) + 1) (col (pieces board ! this))
                (tileGrid (pieces board ! this)) board)
       \<and> move LEFT this board =
           map_option (\<lambda>(ok, board'). (False, board'))
             (moveTo this (row (pieces board ! this)) (col (pieces board ! this) - 1)
                (tileGrid (pieces board ! this)) board)
       \<and> move RIGHT this board =
           map_option (\<lambda>(ok, board'). (False, board'))
             (moveTo this (row (pieces board ! this)) (col (pieces board ! this) + 1)
                (tileGrid (pieces board ! this)) board)
       \<and> move UP this board =
           map_option (\<lambda>(ok, board'). (False, board'))
             (moveTo this (row (pieces board ! this) - 1) (col (pieces board ! this))
                (tileGrid (pieces board ! this)) board)"
  using assms by (simp add: move_def Let_def split: option.splits)

theorem move_return_value_witness:
  "move DOWN 4 floating_board = Some (True, floating_board)
   \<and> map_option fst (move DOWN 1 floating_board) = Some True
   \<and> map_option fst (move RIGHT 1 floating_board) = Some False
   \<and> map_option fst (move LEFT 1 floating_board) = Some False
   \<and> map_option fst (move UP 1 floating_board) = Some False
   \<and> map_option fst (move UP 4 floating_board) = Some False"
proof -
  have l: "4 < length (pieces floating_board)" "1 < length (pieces floating_board)"
    by code_simp+
  have m: "moveTo 4 (row (pieces floating_board ! 4) + 1) (col (pieces floating_board ! 4))
             (tileGrid (pieces floating_board ! 4)) floating_board = Some (False, floating_board)"
     "map_option fst (moveTo 1 (row (pieces floating_board ! 1) + 1) (col (pieces floating_board ! 1))
             (tileGrid (pieces floating_board ! 1)) floating_board) = Some False"
     "map_option fst (moveTo 1 (row (pieces floating_board ! 1)) (col (pieces floating_board ! 1) + 1)
             (tileGrid (pieces floating_board ! 1)) floating_board) = Some True"
     "map_option fst (moveTo 1 (row (pieces floating_board ! 1)) (col (pieces floating_board ! 1) - 1)
             (tileGrid (pieces floating_board ! 1)) floating_board) = Some False"
     "map_option fst (moveTo 1 (row (pieces floating_board ! 1) - 1) (col (pieces floating_board ! 1))
             (tileGrid (pieces floating_board ! 1)) floating_board) = Some False"
     "map_option fst (moveTo 4 (row (pieces floating_board ! 4) - 1) (col (pieces floating_board ! 4))
             (tileGrid (pieces floating_board ! 4)) floating_board) = Some True"
    by code_simp+
  show ?thesis
    using move_return_value [OF l(1)] move_return_value [OF l(2)] m
    by (auto simp: option.map_comp comp_def split_def)
qed

text \<open>
  The claim as stated fails: on the fresh board the I piece moves one column to the right
  (the relocation succeeds) and \<open>move\<close> returns false.
\<close>

theorem move_right_returns_false:
  "map_option fst (moveTo 0 0 1 (tileGrid (pieces (Board_ctor 0) ! 0)) (Board_ctor 0)) = Some True
   \<and> map_option fst (move RIGHT 0 (Board_ctor 0)) = Some False"
  by code_simp

text \<open>
  C6 (four rotations are the identity). The transform of \<^verbatim>\<open>Piece::rotate\<close>, applied four
  times, gives back the footprint, for every footprint.
\<close>

theorem rotated_four_times: "rotated (rotated (rotated (rotated tg))) = tg"
  by (rule array4_exhaust2 [of tg]) (simp add: rotated_Array4)

text \<open>
  C7 (\<^verbatim>\<open>Board::isRowFull\<close>). For a row of the board, the result is true exactly when
  all twelve cells of the row are non-null; the counter goes up by one exactly then, a
  false result leaves the board as it is, and a second call on the same full row counts
  the row again. The counter is a C++ \<^verbatim>\<open>int\<close>: the statements about its new value are
  made where the increments stay at or below 2147483647, since beyond it
  \<^verbatim>\<open>rowsCompleted++\<close> overflows.
\<close>

theorem isRowFull_counts:
  assumes "0 \<le> r" "r < NUM_ROWS"
  shows "(\<not> (\<forall>c \<in> {0..<NUM_COLS}. grid_at (pieceGrid board) r c \<noteq> None) \<longrightarrow>
            isRowFull r board = Some (False, board))
       \<and> ((\<forall>c \<in> {0..<NUM_COLS}. grid_at (pieceGrid board) r c \<noteq> None)
            \<and> rowsCompleted board + 1 \<le> 2147483647 \<longrightarrow>
            isRowFull r board = Some (True, board\<lparr>rowsCompleted := rowsCompleted board + 1\<rparr>))
       \<and> ((\<forall>c \<in> {0..<NUM_COLS}. grid_at (pieceGrid board) r c \<noteq> None)
            \<and> rowsCompleted board + 2 \<le> 2147483647 \<longrightarrow>
            (case isRowFull r board of
               None \<Rightarrow> None
             | Some (full, board') \<Rightarrow> isRowFull r board') =
              Some (True, board\<lparr>rowsCompleted := rowsCompleted board + 2\<rparr>))"
proof -
  have e: "list_ex (\<lambda>c. grid_at g r c = None) [0..NUM_COLS - 1] \<longleftrightarrow>
           \<not> (\<forall>c \<in> {0..<NUM_COLS}. grid_at g r c \<noteq> None)" for g
    by (auto simp: list_ex_iff)
  show ?thesis
    using assms by (simp add: isRowFull_def e)
qed

theorem isRowFull_counts_witness:
  "isRowFull 19 floating_board =
     Some (True, floating_board\<lparr>rowsCompleted := rowsCompleted floating_board + 1\<rparr>)
   \<and> (case isRowFull 19 floating_board of
               None \<Rightarrow> None
             | Some (full, board') \<Rightarrow> isRowFull 19 board') =
              Some (True, floating_board\<lparr>rowsCompleted := rowsCompleted floating_board + 2\<rparr>)
   \<and> isRowFull 18 floating_board = Some (False, floating_board)"
proof -
  have r: "(0::int) \<le> 19" "19 < NUM_ROWS" "(0::int) \<le> 18" "18 < NUM_ROWS"
    by (simp_all add: NUM_ROWS_def)
  have f: "\<forall>c \<in> {0..<NUM_COLS}. grid_at (pieceGrid floating_board) 19 c \<noteq> None"
    by code_simp
  have n: "\<not> (\<forall>c \<in> {0..<NUM_COLS}. grid_at (pieceGrid floating_board) 18 c \<noteq> None)"
    by code_simp
  have k: "rowsCompleted floating_board + 1 \<le> 2147483647"
          "rowsCompleted floating_board + 2 \<le> 2147483647"
    by code_simp+
  note t = isRowFull_counts [OF r(1,2), of floating_board]
  have a1: "isRowFull 19 floating_board =
             Some (True, floating_board\<lparr>rowsCompleted := rowsCompleted floating_board + 1\<rparr>)"
    by (rule mp [OF t [THEN conjunct2, THEN conjunct1] conjI [OF f k(1)]])
  have a2: "(case isRowFull 19 floating_board of
               None \<Rightarrow> None
             | Some (full, board') \<Rightarrow> isRowFull 19 board') =
              Some (True, floating_board\<lparr>rowsCompleted := rowsCompleted floating_board + 2\<rparr>)"
    by (rule mp [OF t [THEN conjunct2, THEN conjunct2] conjI [OF f k(2)]])
  have b: "isRowFull 18 floating_board = Some (False, floating_board)"
    by (rule mp [OF isRowFull_counts [OF r(3,4), of floating_board, THEN conjunct1] n])
  show ?thesis by (intro conjI a1 a2 b)
qed

text \<open>
  C4 (settle, collapse, spawn). On a board that satisfies the invariant, with a live
  active piece and room in the reserved vector: when \<open>move\<close> signals settling on DOWN,
  \<open>collapseFullRows\<close> returns, and \<open>update\<close> then constructs a fresh piece at the anchor (0, 0)
  with the footprint drawn from the catalogue. \<open>update\<close> returns true exactly when every
  cell of the fresh piece is free on the collapsed board; then the fresh piece is appended
  and active. Otherwise it returns false, and the collection and the grid are those of the
  collapsed board: the fresh piece is gone. The invariant holds afterwards in both cases.
\<close>

theorem update_settle_then_spawn:
  assumes "board_inv board" and "activePiece board = Some a" and "a < length (pieces board)"
    and "length (pieces board) < nat (NUM_ROWS * NUM_COLS)"
    and "move DOWN a board = Some (True, board1)"
  shows "\<exists>board2 board'.
     collapseFullRows board1 = Some board2 \<and>
     (let p = fst (Piece_ctor rd (colorIndex board2));
          legal = (\<forall>(r, c) \<in> set (occupiedCells p). grid_at (pieceGrid board2) r c = None)
      in row p = 0 \<and> col p = 0 \<and> tileGrid p = DEFAULT_PIECES ! (rd mod NUM_DEFAULT_PIECES) \<and>
         update rd DOWN board = Some (legal, board') \<and> board_inv board' \<and>
         (legal \<longrightarrow> pieces board' = pieces board2 @ [p] \<and>
                     activePiece board' = Some (length (pieces board2))) \<and>
         (\<not> legal \<longrightarrow> pieces board' = pieces board2 \<and> pieceGrid board' = pieceGrid board2))"
proof -
  from move_inv [OF assms(1,3), of DOWN] assms(5) have "board1 = board" by auto
  with assms(5) have mv: "move DOWN a board = Some (True, board)" by simp
  from update_spawn [OF assms(1,2,4) mv, of rd]
  obtain board2 board' legal where
    "legal = (\<forall>(r, c) \<in> set (occupiedCells (fst (Piece_ctor rd (colorIndex board2)))).
               grid_at (pieceGrid board2) r c = None)"
    "collapseFullRows board = Some board2"
    "update rd DOWN board = Some (legal, board')" "board_inv board'"
    "legal \<longrightarrow> pieces board' = pieces board2 @ [fst (Piece_ctor rd (colorIndex board2))]
            \<and> activePiece board' = Some (length (pieces board2))"
    "\<not> legal \<longrightarrow> pieces board' = pieces board2 \<and> pieceGrid board' = pieceGrid board2"
    by blast
  then show ?thesis
    unfolding \<open>board1 = board\<close> Let_def
    by (intro exI [of _ board2] exI [of _ board']) (simp add: Piece_ctor_anchor)
qed

theorem update_settle_then_spawn_witness:
  "(\<exists>board2 board'.
      collapseFullRows floating_board = Some board2 \<and>
      update 0 DOWN floating_board = Some (True, board') \<and>
      pieces board' = pieces board2 @ [fst (Piece_ctor 0 (colorIndex board2))] \<and>
      activePiece board' = Some (length (pieces board2)))
   \<and> (\<exists>board2 board'.
      collapseFullRows blocked_spawn_board = Some board2 \<and>
      update 0 DOWN blocked_spawn_board = Some (False, board') \<and>
      pieces board' = pieces board2)"
proof -
  have i: "board_inv floating_board" "board_inv blocked_spawn_board" by code_simp+
  have a: "activePiece floating_board = Some 4" "activePiece blocked_spawn_board = Some 1"
    by code_simp+
  have l: "4 < length (pieces floating_board)" "1 < length (pieces blocked_spawn_board)"
    by code_simp+
  have c: "length (pieces floating_board) < nat (NUM_ROWS * NUM_COLS)"
     "length (pieces blocked_spawn_board) < nat (NUM_ROWS * NUM_COLS)"
    by code_simp+
  have m: "move DOWN 4 floating_board = Some (True, floating_board)"
     "move DOWN 1 blocked_spawn_board = Some (True, blocked_spawn_board)"
    by code_simp+
  have r: "map_option fst (update 0 DOWN floating_board) = Some True"
     "map_option fst (update 0 DOWN blocked_spawn_board) = Some False"
    by code_simp+
  from update_settle_then_spawn [OF i(1) a(1) l(1) c(1) m(1), of 0] r(1)
  have 1: "\<exists>board2 board'.
      collapseFullRows floating_board = Some board2 \<and>
      update 0 DOWN floating_board = Some (True, board') \<and>
      pieces board' = pieces board2 @ [fst (Piece_ctor 0 (colorIndex board2))] \<and>
      activePiece board' = Some (length (pieces board2))"
    unfolding Let_def by fastforce
  from update_settle_then_spawn [OF i(2) a(2) l(2) c(2) m(2), of 0] r(2)
  have 2: "\<exists>board2 board'.
      collapseFullRows blocked_spawn_board = Some board2 \<and>
      update 0 DOWN blocked_spawn_board = Some (False, board') \<and>
      pieces board' = pieces board2"
    unfolding Let_def by fastforce
  from 1 2 show ?thesis by blast
qed

text \<open>
  C5 (\<^verbatim>\<open>Piece::rotate\<close>). The new footprint is the quarter turn clockwise of the old one:
  the tile at \<open>(r, c)\<close> goes to \<open>(c, MAX_HEIGHT - 1 - r)\<close>. If the turned footprint at the same
  anchor lies on the board on cells that are null or the piece's own, \<open>rotate_piece\<close> commits it:
  the piece gets the turned footprint, keeps its anchor, and the grid follows (the new
  cells point to the piece, the old cells it left are null, every other cell is as before).
  This needs only a grid of the array's shape and the piece's old cells on the board, so it
  covers the board as constructed, whose first piece is not yet in the grid; where the
  invariant held before, it holds afterwards. Otherwise the board is returned as it was.
\<close>

theorem rotate_clockwise_or_noop:
  assumes t: "this < length (pieces board)"
  shows "(\<forall>r \<in> {0..<MAX_HEIGHT}. \<forall>c \<in> {0..<MAX_WIDTH}.
            tile (rotated (tileGrid (pieces board ! this))) c (MAX_HEIGHT - 1 - r) =
            tile (tileGrid (pieces board ! this)) r c)
       \<and> ((\<forall>(r, c) \<in> set (occupiedCells ((pieces board ! this)\<lparr>tileGrid := rotated (tileGrid (pieces board ! this))\<rparr>)).
              in_board r c \<and>
              (grid_at (pieceGrid board) r c = None \<or> grid_at (pieceGrid board) r c = Some this))
            \<and> grid_ok (pieceGrid board)
            \<and> (\<forall>(r, c) \<in> set (occupiedCells (pieces board ! this)). in_board r c)
           \<longrightarrow> (\<exists>g2. rotate_piece this board =
                  Some (board\<lparr>pieceGrid := g2,
                         pieces := (pieces board)[this := (pieces board ! this)\<lparr>tileGrid := rotated (tileGrid (pieces board ! this))\<rparr>]\<rparr>)
                \<and> grid_ok g2
                \<and> (\<forall>r c. in_board r c \<longrightarrow>
                      grid_at g2 r c =
                        (if (r, c) \<in> set (occupiedCells ((pieces board ! this)\<lparr>tileGrid := rotated (tileGrid (pieces board ! this))\<rparr>))
                         then Some this
                         else if (r, c) \<in> set (occupiedCells (pieces board ! this)) then None
                         else grid_at (pieceGrid board) r c))
                \<and> (board_inv board \<longrightarrow>
                      board_inv (board\<lparr>pieceGrid := g2,
                         pieces := (pieces board)[this := (pieces board ! this)\<lparr>tileGrid := rotated (tileGrid (pieces board ! this))\<rparr>]\<rparr>))))
       \<and> (\<not> (\<forall>(r, c) \<in> set (occupiedCells ((pieces board ! this)\<lparr>tileGrid := rotated (tileGrid (pieces board ! this))\<rparr>)).
              in_board r c \<and>
              (grid_at (pieceGrid board) r c = None \<or> grid_at (pieceGrid board) r c = Some this))
           \<longrightarrow> rotate_piece this board = Some board)"
proof (intro conjI impI)
  show "\<forall>r \<in> {0..<MAX_HEIGHT}. \<forall>c \<in> {0..<MAX_WIDTH}.
            tile (rotated (tileGrid (pieces board ! this))) c (MAX_HEIGHT - 1 - r) =
            tile (tileGrid (pieces board ! this)) r c"
    using tile_rotated [of _ _ "tileGrid (pieces board ! this)"]
    by (simp add: MAX_HEIGHT_def MAX_WIDTH_def)
next
  assume a: "(\<forall>(r, c) \<in> set (occupiedCells ((pieces board ! this)\<lparr>tileGrid := rotated (tileGrid (pieces board ! this))\<rparr>)).
              in_board r c \<and>
              (grid_at (pieceGrid board) r c = None \<or> grid_at (pieceGrid board) r c = Some this))
            \<and> grid_ok (pieceGrid board)
            \<and> (\<forall>(r, c) \<in> set (occupiedCells (pieces board ! this)). in_board r c)"
  show "\<exists>g2. rotate_piece this board =
                  Some (board\<lparr>pieceGrid := g2,
                         pieces := (pieces board)[this := (pieces board ! this)\<lparr>tileGrid := rotated (tileGrid (pieces board ! this))\<rparr>]\<rparr>)
                \<and> grid_ok g2
                \<and> (\<forall>r c. in_board r c \<longrightarrow>
                      grid_at g2 r c =
                        (if (r, c) \<in> set (occupiedCells ((pieces board ! this)\<lparr>tileGrid := rotated (tileGrid (pieces board ! this))\<rparr>))
                         then Some this
                         else if (r, c) \<in> set (occupiedCells (pieces board ! this)) then None
                         else grid_at (pieceGrid board) r c))
                \<and> (board_inv board \<longrightarrow>
                      board_inv (board\<lparr>pieceGrid := g2,
                         pieces := (pieces board)[this := (pieces board ! this)\<lparr>tileGrid := rotated (tileGrid (pieces board ! this))\<rparr>]\<rparr>))"
    by (rule rotate_commit [OF a [THEN conjunct2, THEN conjunct1] t
          a [THEN conjunct2, THEN conjunct2] a [THEN conjunct1]])
next
  assume "\<not> (\<forall>(r, c) \<in> set (occupiedCells ((pieces board ! this)\<lparr>tileGrid := rotated (tileGrid (pieces board ! this))\<rparr>)).
              in_board r c \<and>
              (grid_at (pieceGrid board) r c = None \<or> grid_at (pieceGrid board) r c = Some this))"
  then show "rotate_piece this board = Some board"
    by (rule rotate_illegal [OF t])
qed

theorem rotate_clockwise_or_noop_witness:
  "rotate_piece 0 floating_board = Some floating_board
   \<and> (\<exists>g2. rotate_piece 0 one_piece_board =
          Some (one_piece_board\<lparr>pieceGrid := g2,
                  pieces := (pieces one_piece_board)
                    [0 := (pieces one_piece_board ! 0)
                       \<lparr>tileGrid := rotated (tileGrid (pieces one_piece_board ! 0))\<rparr>]\<rparr>)
        \<and> board_inv (one_piece_board\<lparr>pieceGrid := g2,
                  pieces := (pieces one_piece_board)
                    [0 := (pieces one_piece_board ! 0)
                       \<lparr>tileGrid := rotated (tileGrid (pieces one_piece_board ! 0))\<rparr>]\<rparr>))
   \<and> (\<exists>g2. rotate_piece 0 (Board_ctor 0) =
          Some ((Board_ctor 0)\<lparr>pieceGrid := g2,
                  pieces := (pieces (Board_ctor 0))
                    [0 := (pieces (Board_ctor 0) ! 0)
                       \<lparr>tileGrid := rotated (tileGrid (pieces (Board_ctor 0) ! 0))\<rparr>]\<rparr>)
        \<and> grid_ok g2)
   \<and> tile (rotated (DEFAULT_PIECES ! 0)) 2 3 = tile (DEFAULT_PIECES ! 0) 0 2"
proof -
  have i: "board_inv one_piece_board" by code_simp
  have l: "0 < length (pieces floating_board)" "0 < length (pieces one_piece_board)"
          "0 < length (pieces (Board_ctor 0))" by code_simp+
  have n: "\<not> (\<forall>(r, c) \<in> set (occupiedCells ((pieces floating_board ! 0)
               \<lparr>tileGrid := rotated (tileGrid (pieces floating_board ! 0))\<rparr>)).
              in_board r c \<and>
              (grid_at (pieceGrid floating_board) r c = None \<or> grid_at (pieceGrid floating_board) r c = Some 0))"
    by code_simp
  have y: "(\<forall>(r, c) \<in> set (occupiedCells ((pieces one_piece_board ! 0)
               \<lparr>tileGrid := rotated (tileGrid (pieces one_piece_board ! 0))\<rparr>)).
              in_board r c \<and>
              (grid_at (pieceGrid one_piece_board) r c = None \<or> grid_at (pieceGrid one_piece_board) r c = Some 0))
           \<and> grid_ok (pieceGrid one_piece_board)
           \<and> (\<forall>(r, c) \<in> set (occupiedCells (pieces one_piece_board ! 0)). in_board r c)"
    by code_simp
  have z: "(\<forall>(r, c) \<in> set (occupiedCells ((pieces (Board_ctor 0) ! 0)
               \<lparr>tileGrid := rotated (tileGrid (pieces (Board_ctor 0) ! 0))\<rparr>)).
              in_board r c \<and>
              (grid_at (pieceGrid (Board_ctor 0)) r c = None \<or> grid_at (pieceGrid (Board_ctor 0)) r c = Some 0))
           \<and> grid_ok (pieceGrid (Board_ctor 0))
           \<and> (\<forall>(r, c) \<in> set (occupiedCells (pieces (Board_ctor 0) ! 0)). in_board r c)"
    by code_simp
  have e: "pieces one_piece_board ! 0 = I_at 0 0 RED" "tileGrid (I_at 0 0 RED) = DEFAULT_PIECES ! 0"
    by (simp_all add: one_piece_board_def I_at_def)
  have m: "(0::int) \<in> {0..<MAX_HEIGHT}" "(2::int) \<in> {0..<MAX_WIDTH}" "MAX_HEIGHT - 1 - 0 = (3::int)"
    by (simp_all add: MAX_HEIGHT_def MAX_WIDTH_def)
  note a = rotate_clockwise_or_noop [OF l(1)]
  note b = rotate_clockwise_or_noop [OF l(2)]
  note c = rotate_clockwise_or_noop [OF l(3)]
  from a n have 1: "rotate_piece 0 floating_board = Some floating_board" by blast
  from mp [OF b [THEN conjunct2, THEN conjunct1] y] i
  have 2: "\<exists>g2. rotate_piece 0 one_piece_board =
          Some (one_piece_board\<lparr>pieceGrid := g2,
                  pieces := (pieces one_piece_board)
                    [0 := (pieces one_piece_board ! 0)
                       \<lparr>tileGrid := rotated (tileGrid (pieces one_piece_board ! 0))\<rparr>]\<rparr>)
        \<and> board_inv (one_piece_board\<lparr>pieceGrid := g2,
                  pieces := (pieces one_piece_board)
                    [0 := (pieces one_piece_board ! 0)
                       \<lparr>tileGrid := rotated (tileGrid (pieces one_piece_board ! 0))\<rparr>]\<rparr>)"
    by blast
  from mp [OF c [THEN conjunct2, THEN conjunct1] z]
  have 3: "\<exists>g2. rotate_piece 0 (Board_ctor 0) =
          Some ((Board_ctor 0)\<lparr>pieceGrid := g2,
                  pieces := (pieces (Board_ctor 0))
                    [0 := (pieces (Board_ctor 0) ! 0)
                       \<lparr>tileGrid := rotated (tileGrid (pieces (Board_ctor 0) ! 0))\<rparr>]\<rparr>)
        \<and> grid_ok g2"
    by blast
  from b [THEN conjunct1] m have 4: "tile (rotated (DEFAULT_PIECES ! 0)) 2 3 = tile (DEFAULT_PIECES ! 0) 0 2"
    unfolding e by (metis)
  from 1 2 3 4 show ?thesis by blast
qed

text \<open>
  C8 (\<^verbatim>\<open>Piece::removeTile\<close>), as amended: for a cell whose offset from the anchor lies in
  the 4 by 4 footprint, the call clears that sub-cell if it is set (the piece loses exactly
  this cell and keeps anchor and colour) and changes nothing if it is not set. For a cell
  whose offset lies outside the footprint the read \<^verbatim>\<open>tileGrid[subRow][subCol]\<close> is out of
  range: the source has no guard there, and the call has no defined result.
\<close>

theorem removeTile_in_window:
  assumes "this < length (pieces board)"
  shows "((rowToRemove, colToRemove) \<in> set (occupiedCells (pieces board ! this)) \<longrightarrow>
            (\<exists>p'. removeTile this rowToRemove colToRemove board =
                     Some (board\<lparr>pieces := (pieces board)[this := p']\<rparr>)
                 \<and> set (occupiedCells p') =
                     set (occupiedCells (pieces board ! this)) - {(rowToRemove, colToRemove)}
                 \<and> row p' = row (pieces board ! this) \<and> col p' = col (pieces board ! this)
                 \<and> color p' = color (pieces board ! this)))
       \<and> (0 \<le> rowToRemove - row (pieces board ! this)
            \<and> rowToRemove - row (pieces board ! this) < MAX_HEIGHT
            \<and> 0 \<le> colToRemove - col (pieces board ! this)
            \<and> colToRemove - col (pieces board ! this) < MAX_WIDTH
            \<and> (rowToRemove, colToRemove) \<notin> set (occupiedCells (pieces board ! this))
          \<longrightarrow> removeTile this rowToRemove colToRemove board = Some board)
       \<and> (\<not> (0 \<le> rowToRemove - row (pieces board ! this)
            \<and> rowToRemove - row (pieces board ! this) < MAX_HEIGHT
            \<and> 0 \<le> colToRemove - col (pieces board ! this)
            \<and> colToRemove - col (pieces board ! this) < MAX_WIDTH)
          \<longrightarrow> removeTile this rowToRemove colToRemove board = None)"
proof -
  let ?p = "pieces board ! this"
  let ?sr = "rowToRemove - row ?p" and ?sc = "colToRemove - col ?p"
  have b: "removeTile this rowToRemove colToRemove board = Some board"
    if "0 \<le> ?sr \<and> ?sr < MAX_HEIGHT \<and> 0 \<le> ?sc \<and> ?sc < MAX_WIDTH
        \<and> (rowToRemove, colToRemove) \<notin> set (occupiedCells ?p)"
    using that assms
    by (auto simp: removeTile_def Let_def set_occupiedCells cells_at_iff MAX_HEIGHT_def MAX_WIDTH_def)
  have c: "removeTile this rowToRemove colToRemove board = None"
    if "\<not> (0 \<le> ?sr \<and> ?sr < MAX_HEIGHT \<and> 0 \<le> ?sc \<and> ?sc < MAX_WIDTH)"
    using that assms by (auto simp: removeTile_def Let_def)
  from removeTile_occupied [OF assms] b c show ?thesis by blast
qed

theorem removeTile_in_window_witness:
  "(\<exists>p'. removeTile 0 0 2 one_piece_board = Some (one_piece_board\<lparr>pieces := [p']\<rparr>)
         \<and> set (occupiedCells p') = {(0, 0), (0, 1), (0, 3)})
   \<and> removeTile 0 1 2 one_piece_board = Some one_piece_board
   \<and> removeTile 0 4 2 one_piece_board = None"
proof -
  have l: "0 < length (pieces one_piece_board)" by code_simp
  have o: "(0, 2) \<in> set (occupiedCells (pieces one_piece_board ! 0))" by code_simp
  have s: "set (occupiedCells (pieces one_piece_board ! 0)) - {(0, 2)} = {(0, 0), (0, 1), (0, 3)}"
    by code_simp
  have u: "(pieces one_piece_board)[0 := p'] = [p']" for p'
    by (simp add: one_piece_board_def)
  have n: "0 \<le> 1 - row (pieces one_piece_board ! 0)
            \<and> 1 - row (pieces one_piece_board ! 0) < MAX_HEIGHT
            \<and> 0 \<le> 2 - col (pieces one_piece_board ! 0)
            \<and> 2 - col (pieces one_piece_board ! 0) < MAX_WIDTH
            \<and> (1, 2) \<notin> set (occupiedCells (pieces one_piece_board ! 0))"
    by code_simp
  have w: "\<not> (0 \<le> 4 - row (pieces one_piece_board ! 0)
            \<and> 4 - row (pieces one_piece_board ! 0) < MAX_HEIGHT
            \<and> 0 \<le> 2 - col (pieces one_piece_board ! 0)
            \<and> 2 - col (pieces one_piece_board ! 0) < MAX_WIDTH)"
    by code_simp
  from removeTile_in_window [OF l, of 0 2] o
  have 1: "\<exists>p'. removeTile 0 0 2 one_piece_board = Some (one_piece_board\<lparr>pieces := [p']\<rparr>)
         \<and> set (occupiedCells p') = {(0, 0), (0, 1), (0, 3)}"
    unfolding s u by blast
  from removeTile_in_window [OF l, of 1 2] n
  have 2: "removeTile 0 1 2 one_piece_board = Some one_piece_board" by blast
  from removeTile_in_window [OF l, of 4 2] w
  have 3: "removeTile 0 4 2 one_piece_board = None" by blast
  from 1 2 3 show ?thesis by blast
qed

text \<open>
  The claim as stated fails: for the I piece at (0, 0) and the board cell (10, 10) the
  offset is (10, 10), and the footprint is read out of range.
\<close>

theorem removeTile_outside_window: "removeTile 0 10 10 one_piece_board = None"
  by code_simp

text \<open>
  C9 (twenty moves down), as amended: every piece is constructed at the anchor (0, 0). On
  the fresh board with the I shape, nineteen calls of \<open>update\<close> with DOWN bring the piece
  from row 0 to row 19; there a further move down fails with the settle signal and the
  board unchanged; the twentieth call of \<open>update\<close> returns true, leaves the piece at row 19
  and makes a fresh piece at (0, 0) the active one.
\<close>

theorem twenty_moves_down:
  "tileGrid (pieces (Board_ctor 0) ! 0) = DEFAULT_PIECES ! 0
   \<and> map (\<lambda>p. (row p, col p)) (pieces (Board_ctor 0)) = [(0, 0)]
   \<and> map_option (\<lambda>(ok, b). (ok, map (\<lambda>p. (row p, col p)) (pieces b), activePiece b))
         (updates (replicate 19 (0, DOWN)) (True, Board_ctor 0)) = Some (True, [(19, 0)], Some 0)
   \<and> (case updates (replicate 19 (0, DOWN)) (True, Board_ctor 0) of
         None \<Rightarrow> False
       | Some (ok, b) \<Rightarrow> move DOWN 0 b = Some (True, b))
   \<and> map_option (\<lambda>(ok, b). (ok, map (\<lambda>p. (row p, col p)) (pieces b), activePiece b, consistent b))
         (updates (replicate 20 (0, DOWN)) (True, Board_ctor 0))
       = Some (True, [(19, 0), (0, 0)], Some 1, True)"
  by code_simp

text \<open>
  The claim as stated fails: the pieces of the fresh board are anchored at (0, 0), not at
  (0, 4); and when the I piece is first moved to (0, 4) and then down twenty times, the
  fresh piece appears at (0, 0), not at (0, 4).
\<close>

theorem spawn_anchor_is_origin:
  "map (\<lambda>p. (row p, col p)) (pieces (Board_ctor 0)) = [(0, 0)]
   \<and> map_option (\<lambda>(ok, b). (ok, map (\<lambda>p. (row p, col p)) (pieces b), activePiece b))
         (updates (replicate 4 (0, RIGHT)) (True, Board_ctor 0)) = Some (True, [(0, 4)], Some 0)
   \<and> map_option (\<lambda>(ok, b). (ok, map (\<lambda>p. (row p, col p)) (pieces b), activePiece b))
         (updates (replicate 4 (0, RIGHT) @ replicate 20 (0, DOWN)) (True, Board_ctor 0))
       = Some (True, [(19, 4), (0, 0)], Some 1)"
  by code_simp

text \<open>
  C10 (a piece is left floating). The board that the game \<open>overhang_game\<close> reaches from
  the fresh board satisfies the invariant, and row 19 is full. On it \<open>collapseFullRows\<close>
  returns a board that satisfies the invariant and on which piece 0 can still move down:
  when its turn came it was blocked by piece 1 under its overhang, and piece 1 fell
  afterwards. The anchors listed are those of the six pieces after the collapse.
\<close>

theorem collapse_leaves_piece_floating:
  "(case updates overhang_game (True, Board_ctor 2) of
      None \<Rightarrow> False
    | Some (ok, s) \<Rightarrow>
        ok \<and> consistent s
        \<and> map (\<lambda>p. (row p, col p)) (pieces s) = [(17, 0), (18, 1), (18, 3), (18, 6), (18, 8), (18, 10)]
        \<and> (case collapseFullRows s of
              None \<Rightarrow> False
            | Some b \<Rightarrow>
                consistent b
                \<and> map (\<lambda>p. (row p, col p)) (pieces b) =
                    [(17, 0), (19, 1), (19, 3), (19, 6), (19, 8), (19, 10)]
                \<and> map_option fst (moveTo 0 (row (pieces b ! 0) + 1) (col (pieces b ! 0))
                                      (tileGrid (pieces b ! 0)) b) = Some True
                \<and> map_option fst (move DOWN 0 b) = Some False))"
  by code_simp

end
